theory Spec2Isabelle
  imports Complex_Main "HOL-Library.Char_ord"
begin

section \<open>Receipt parser: the field-extraction engine of \<open>parser.service.ts\<close>\<close>

text \<open>
  The development embeds \<open>ReceiptParser\<close> (\<open>isValidDate\<close>, \<open>parsePrice\<close>, \<open>parse\<close>) of
  \<open>src/services/parser.service.ts\<close>: the class of lines 1 to 155. The file holds a second,
  older copy of the class after it (lines 156 to 264), which is not embedded.

  Conventions of the embedding.
  \<^item> Text is a \<open>string\<close>: a list of 8-bit characters, read as the UTF-16 code units
    U+0000 to U+00FF. Code units above U+00FF are outside the model.
  \<^item> A JavaScript number produced by \<open>parseFloat\<close> is modelled by the exact decimal value
    of the parsed prefix, a \<open>rat\<close>; the IEEE double is the rounding of that value.
    \<open>NaN\<close> and \<open>undefined\<close> are \<open>None\<close>.
  \<^item> A regular expression is a value of the datatype \<open>regex\<close>, and \<open>match\<close>, \<open>test\<close> and
    \<open>replace\<close> run a backtracking matcher on it, with the priorities of the language:
    alternatives from left to right, quantifiers greedy, the leftmost start first.
  \<^item> The clock (\<open>new Date().getFullYear()\<close>) is an explicit parameter \<open>currentYear\<close>;
    one call of \<open>parse\<close> reads the same year at each of its clock reads.
  \<^item> The source has no \<open>throw\<close>, and every index it reads exists (\<open>split\<close> returns at
    least one part, group 1 exists in every match). One call can throw:
    \<open>Math.max(...numericPrices)\<close>, when the array is longer than the engine's argument
    limit. \<open>parseE\<close> is \<open>parse\<close> with that exception as a result; \<open>parse\<close> is the record
    returned when the call returns. Exhaustion of memory is not modelled.
  \<^item> Logging is not modelled.
\<close>

subsection \<open>Character classes\<close>

definition code :: "char \<Rightarrow> nat" where
  "code c = of_char c"

text \<open>\<open>\d\<close> and \<open>[0-9]\<close>.\<close>
definition isDigit :: "char \<Rightarrow> bool" where
  "isDigit c = (48 \<le> code c \<and> code c \<le> 57)"

definition isUpperAZ :: "char \<Rightarrow> bool" where
  "isUpperAZ c = (65 \<le> code c \<and> code c \<le> 90)"

definition isLowerAZ :: "char \<Rightarrow> bool" where
  "isLowerAZ c = (97 \<le> code c \<and> code c \<le> 122)"

text \<open>\<open>[a-zA-Z0-9]\<close>.\<close>
definition isAlnum :: "char \<Rightarrow> bool" where
  "isAlnum c = (isLowerAZ c \<or> isUpperAZ c \<or> isDigit c)"

text \<open>The word characters of \<open>\b\<close>: \<open>[A-Za-z0-9_]\<close>.\<close>
definition isWordChar :: "char \<Rightarrow> bool" where
  "isWordChar c = (isAlnum c \<or> c = CHR ''_'')"

text \<open>
  \<open>\s\<close> and the characters removed by \<open>trim()\<close>: tab, line feed, vertical tab, form feed,
  carriage return, space and the no-break space U+00A0.
\<close>
definition isSpace :: "char \<Rightarrow> bool" where
  "isSpace c = (code c \<in> {9, 10, 11, 12, 13, 32, 160})"

definition newline :: char where
  "newline = CHR 0x0A"

text \<open>\<open>[.,]\<close>.\<close>
definition isSep :: "char \<Rightarrow> bool" where
  "isSep c = (c = CHR ''.'' \<or> c = CHR '','')"

text \<open>
  \<open>String.prototype.toUpperCase\<close> on one code unit. The sharp s (U+00DF) becomes
  \<open>SS\<close>. The upper-case forms of U+00B5 and U+00FF lie above U+00FF; those two
  characters are kept, which no test of the parser can observe (every pattern applied to
  the upper-cased line is ASCII or white space).
\<close>
definition upperChar :: "char \<Rightarrow> string" where
  "upperChar c =
     (if isLowerAZ c then [char_of (code c - 32)]
      else if code c = 223 then ''SS''
      else if 224 \<le> code c \<and> code c \<le> 254 \<and> code c \<noteq> 247 then [char_of (code c - 32)]
      else [c])"

definition toUpperCase :: "string \<Rightarrow> string" where
  "toUpperCase s = concat (map upperChar s)"

text \<open>
  The other-case variant of a character, for case-insensitive matching (flag \<open>i\<close>):
  two code units match when their canonical (upper-case) forms agree, and a code unit
  of 128 or more never matches one below 128.
\<close>
definition swapCase :: "char \<Rightarrow> char" where
  "swapCase c =
     (if isLowerAZ c then char_of (code c - 32)
      else if isUpperAZ c then char_of (code c + 32)
      else if 224 \<le> code c \<and> code c \<le> 254 \<and> code c \<noteq> 247 then char_of (code c - 32)
      else if 192 \<le> code c \<and> code c \<le> 222 \<and> code c \<noteq> 215 then char_of (code c + 32)
      else c)"

subsection \<open>Numbers\<close>

definition digitVal :: "char \<Rightarrow> nat" where
  "digitVal c = code c - 48"

definition digitsToNat :: "string \<Rightarrow> nat" where
  "digitsToNat ds = foldl (\<lambda>a c. 10 * a + digitVal c) 0 ds"

text \<open>
  \<open>parseFloat\<close>: leading white space is skipped, a sign is read, and the longest
  prefix of the form \<open>digits\<close>, \<open>digits.\<close>, \<open>digits.digits\<close> or \<open>.digits\<close> is the
  decimal; \<open>NaN\<close> (here \<open>None\<close>) when there is no such prefix. An exponent part and
  the literal \<open>Infinity\<close> are not read: they need a letter, and \<open>parsePrice\<close> passes only
  digits, dots and commas (lemma \<open>normalizeNum_alphabet\<close>).
\<close>
definition parseFloat :: "string \<Rightarrow> rat option" where
  "parseFloat str =
     (let s = dropWhile isSpace str;
          negative = (case s of [] \<Rightarrow> False | c # _ \<Rightarrow> c = CHR ''-'');
          body = (case s of [] \<Rightarrow> [] | c # t \<Rightarrow> if c = CHR ''-'' \<or> c = CHR ''+'' then t else s);
          ip = takeWhile isDigit body;
          rest = dropWhile isDigit body;
          fp = (case rest of [] \<Rightarrow> [] | c # t \<Rightarrow> if c = CHR ''.'' then takeWhile isDigit t else []);
          magnitude = of_nat (digitsToNat ip) + of_nat (digitsToNat fp) / 10 ^ length fp
      in if ip = [] \<and> fp = [] then None
         else Some (if negative then - magnitude else magnitude))"

text \<open>\<open>parseInt\<close> on a string that starts with a digit.\<close>
definition parseInt :: "string \<Rightarrow> nat" where
  "parseInt s = digitsToNat (takeWhile isDigit s)"

subsection \<open>String operations used by \<open>parsePrice\<close>\<close>

text \<open>\<open>s.replace(/[.,]+$/, '')\<close>: the trailing run of dots and commas is removed.\<close>
definition stripTrailingSeps :: "string \<Rightarrow> string" where
  "stripTrailingSeps s = rev (dropWhile isSep (rev s))"

text \<open>\<open>s.lastIndexOf(c)\<close>, \<open>-1\<close> when \<open>c\<close> does not occur.\<close>
fun lastIndexOfFrom :: "char \<Rightarrow> int \<Rightarrow> int \<Rightarrow> string \<Rightarrow> int" where
  "lastIndexOfFrom c i found [] = found"
| "lastIndexOfFrom c i found (x # xs) = lastIndexOfFrom c (i + 1) (if x = c then i else found) xs"

definition lastIndexOf :: "char \<Rightarrow> string \<Rightarrow> int" where
  "lastIndexOf c s = lastIndexOfFrom c 0 (- 1) s"

text \<open>\<open>s.replace(',', '.')\<close> with a string pattern: only the first occurrence.\<close>
fun replaceFirst :: "char \<Rightarrow> char \<Rightarrow> string \<Rightarrow> string" where
  "replaceFirst a b [] = []"
| "replaceFirst a b (x # xs) = (if x = a then b # xs else x # replaceFirst a b xs)"

text \<open>A global replace of one character by nothing, and of one character by another.\<close>
definition removeChar :: "char \<Rightarrow> string \<Rightarrow> string" where
  "removeChar a s = filter (\<lambda>c. c \<noteq> a) s"

definition replaceAllChar :: "char \<Rightarrow> char \<Rightarrow> string \<Rightarrow> string" where
  "replaceAllChar a b s = map (\<lambda>c. if c = a then b else c) s"

text \<open>\<open>s.split(sep)\<close> for a one-character separator; the result is never empty.\<close>
fun splitOn :: "char \<Rightarrow> string \<Rightarrow> string list" where
  "splitOn sep [] = [[]]"
| "splitOn sep (x # xs) =
     (if x = sep then [] # splitOn sep xs
      else (case splitOn sep xs of p # ps \<Rightarrow> (x # p) # ps | [] \<Rightarrow> [[x]]))"

subsection \<open>\<open>parsePrice\<close>\<close>

definition cleanPrice :: "string \<Rightarrow> string" where
  "cleanPrice text = stripTrailingSeps (filter (\<lambda>c. isDigit c \<or> isSep c) text)"

definition normalizeNum :: "string \<Rightarrow> string" where
  "normalizeNum cleanText =
     (let hasComma = (CHR '','' \<in> set cleanText);
          hasDot = (CHR ''.'' \<in> set cleanText)
      in if hasComma \<and> hasDot then
           (let lastComma = lastIndexOf (CHR '','') cleanText;
                lastDot = lastIndexOf (CHR ''.'') cleanText
            in if lastComma > lastDot
               then replaceFirst (CHR '','') (CHR ''.'') (removeChar (CHR ''.'') cleanText)
               else removeChar (CHR '','') cleanText)
         else if hasComma \<or> hasDot then
           (let separator = (if hasComma then CHR '','' else CHR ''.'');
                parts = splitOn separator cleanText;
                lastPart = last parts
            in if length lastPart = 3
               then removeChar separator cleanText
               else replaceAllChar (CHR '','') (CHR ''.'') cleanText)
         else cleanText)"

definition parsePrice :: "string \<Rightarrow> rat option" where
  "parsePrice text =
     (let cleanText = cleanPrice text
      in if cleanText = [] then None else parseFloat (normalizeNum cleanText))"

subsection \<open>A backtracking matcher for the regular expressions of the parser\<close>

text \<open>
  A match state is the text to the left of the cursor (reversed), the text to the right,
  and the content of capture group 1 (every expression of the parser has at most one
  capturing group). A matcher maps a state to the list of its end states in the order
  in which a backtracking engine tries them; the first one that lets the rest of the
  expression succeed is the match.
\<close>

type_synonym mstate = "string \<times> string \<times> string option"

datatype regex =
    Chr char
  | Cls bool "char \<Rightarrow> bool"
  | Seq regex regex
  | Alt regex regex
  | Opt regex
  | Star regex
  | Rep nat nat regex
  | Grp regex
  | Bol
  | WordB
  | Eps

definition remaining :: "mstate \<Rightarrow> nat" where
  "remaining s = length (fst (snd s))"

fun consume :: "(char \<Rightarrow> bool) \<Rightarrow> mstate \<Rightarrow> mstate list" where
  "consume P (l, [], g) = []"
| "consume P (l, c # r, g) = (if P c then [(c # l, r, g)] else [])"

text \<open>
  Greedy \<open>*\<close>: another iteration first, then stop. An iteration that consumes nothing
  is rejected, as in the language definition.
\<close>
function starM :: "(mstate \<Rightarrow> mstate list) \<Rightarrow> mstate \<Rightarrow> mstate list" where
  "starM m s =
     concat (map (\<lambda>s'. if remaining s' < remaining s then starM m s' else []) (m s)) @ [s]"
  by pat_completeness auto
termination
  by (relation "measure (\<lambda>(m, s). remaining s)") auto

declare starM.simps [simp del]

text \<open>Greedy \<open>{k,n}\<close>.\<close>
fun repM :: "nat \<Rightarrow> nat \<Rightarrow> (mstate \<Rightarrow> mstate list) \<Rightarrow> mstate \<Rightarrow> mstate list" where
  "repM 0 0 m s = [s]"
| "repM 0 (Suc n) m s =
     concat (map (\<lambda>s'. if remaining s' < remaining s then repM 0 n m s' else []) (m s)) @ [s]"
| "repM (Suc k) 0 m s = []"
| "repM (Suc k) (Suc n) m s = concat (map (repM k n m) (m s))"

definition atWordBoundary :: "mstate \<Rightarrow> bool" where
  "atWordBoundary s =
     ((case fst s of [] \<Rightarrow> False | c # _ \<Rightarrow> isWordChar c)
        \<noteq> (case fst (snd s) of [] \<Rightarrow> False | c # _ \<Rightarrow> isWordChar c))"

definition setGroup :: "mstate \<Rightarrow> mstate \<Rightarrow> mstate" where
  "setGroup s e =
     (fst e, fst (snd e), Some (rev (take (length (fst e) - length (fst s)) (fst e))))"

text \<open>The first argument is the flag \<open>i\<close>.\<close>
primrec run :: "bool \<Rightarrow> regex \<Rightarrow> mstate \<Rightarrow> mstate list" where
  "run ic (Chr a) = consume (\<lambda>c. c = a \<or> (ic \<and> swapCase c = a))"
| "run ic (Cls neg P) = consume (\<lambda>c. (P c \<or> (ic \<and> P (swapCase c))) \<noteq> neg)"
| "run ic (Seq a b) = (\<lambda>s. concat (map (run ic b) (run ic a s)))"
| "run ic (Alt a b) = (\<lambda>s. run ic a s @ run ic b s)"
| "run ic (Opt a) = repM 0 1 (run ic a)"
| "run ic (Star a) = starM (run ic a)"
| "run ic (Rep k n a) = repM k n (run ic a)"
| "run ic (Grp a) = (\<lambda>s. map (setGroup s) (run ic a s))"
| "run ic Bol = (\<lambda>s. if fst s = [] then [s] else [])"
| "run ic WordB = (\<lambda>s. if atWordBoundary s then [s] else [])"
| "run ic Eps = (\<lambda>s. [s])"

text \<open>A literal string, a sequence, an alternation, and \<open>+\<close>.\<close>
definition Str :: "string \<Rightarrow> regex" where
  "Str s = foldr (\<lambda>c r. Seq (Chr c) r) s Eps"

definition seqs :: "regex list \<Rightarrow> regex" where
  "seqs rs = foldr Seq rs Eps"

fun alts :: "regex list \<Rightarrow> regex" where
  "alts [] = Cls False (\<lambda>c. False)"
| "alts [r] = r"
| "alts (r # rs) = Alt r (alts rs)"

definition Plus :: "regex \<Rightarrow> regex" where
  "Plus r = Seq r (Star r)"

text \<open>
  The search of \<open>RegExp.prototype.exec\<close>: the first start position, from the cursor
  on, at which the matcher succeeds; the result is the start and the end state.
\<close>
fun execFrom :: "(mstate \<Rightarrow> mstate list) \<Rightarrow> string \<Rightarrow> string \<Rightarrow> (mstate \<times> mstate) option" where
  "execFrom m l [] =
     (case m (l, [], None) of e # _ \<Rightarrow> Some ((l, [], None), e) | [] \<Rightarrow> None)"
| "execFrom m l (c # r) =
     (case m (l, c # r, None) of e # _ \<Rightarrow> Some ((l, c # r, None), e)
      | [] \<Rightarrow> execFrom m (c # l) r)"

definition matchedText :: "mstate \<Rightarrow> mstate \<Rightarrow> string" where
  "matchedText st en = rev (take (length (fst en) - length (fst st)) (fst en))"

text \<open>
  \<open>str.match(re)\<close> without the flag \<open>g\<close>: the matched text and group 1, or \<open>None\<close>
  for \<open>null\<close>.
\<close>
definition matchFirst :: "bool \<Rightarrow> regex \<Rightarrow> string \<Rightarrow> (string \<times> string option) option" where
  "matchFirst ic re s =
     (case execFrom (run ic re) [] s of
        None \<Rightarrow> None
      | Some (st, en) \<Rightarrow> Some (matchedText st en, snd (snd en)))"

text \<open>\<open>re.test(str)\<close>.\<close>
definition regexTest :: "bool \<Rightarrow> regex \<Rightarrow> string \<Rightarrow> bool" where
  "regexTest ic re s = (matchFirst ic re s \<noteq> None)"

text \<open>\<open>str.replace(re, repl)\<close> without the flag \<open>g\<close>: the first match is replaced.\<close>
definition replaceFirstMatch :: "bool \<Rightarrow> regex \<Rightarrow> string \<Rightarrow> string \<Rightarrow> string" where
  "replaceFirstMatch ic re repl s =
     (case execFrom (run ic re) [] s of
        None \<Rightarrow> s
      | Some (st, en) \<Rightarrow> rev (fst st) @ repl @ fst (snd en))"

text \<open>
  \<open>str.match(re)\<close> with the flag \<open>g\<close>: the texts of all matches, from left to right.
  The matcher is tried at the cursor; after a match the search goes on where the match
  ended (one character further after an empty match), after a failure one character
  further. The empty list stands for \<open>null\<close>.
\<close>
function matchAllFrom :: "(mstate \<Rightarrow> mstate list) \<Rightarrow> string \<Rightarrow> string \<Rightarrow> string list" where
  "matchAllFrom m l r =
     (case m (l, r, None) of
        e # _ \<Rightarrow>
          matchedText (l, r, None) e #
            (if remaining e < length r then matchAllFrom m (fst e) (fst (snd e))
             else (case r of [] \<Rightarrow> [] | c # r' \<Rightarrow> matchAllFrom m (c # l) r'))
      | [] \<Rightarrow> (case r of [] \<Rightarrow> [] | c # r' \<Rightarrow> matchAllFrom m (c # l) r'))"
  by pat_completeness auto
termination
  by (relation "measure (\<lambda>(m, l, r). length r)") (auto simp: remaining_def)

declare matchAllFrom.simps [simp del]

definition matchAll :: "bool \<Rightarrow> regex \<Rightarrow> string \<Rightarrow> string list" where
  "matchAll ic re s = matchAllFrom (run ic re) [] s"

subsection \<open>The regular expressions of the parser\<close>

definition digitC :: regex where
  "digitC = Cls False isDigit"

definition spaceC :: regex where
  "spaceC = Cls False isSpace"

definition sepC :: regex where
  "sepC = Cls False isSep"

text \<open>\<open>/(\d{4})/\<close>\<close>
definition yearRegex :: regex where
  "yearRegex = Grp (Rep 4 4 digitC)"

text \<open>\<open>/[a-zA-Z0-9]/\<close>\<close>
definition alnumRegex :: regex where
  "alnumRegex = Cls False isAlnum"

text \<open>\<open>/^(CALLE|AV|JR)\.?\s/\<close>\<close>
definition streetRegex :: regex where
  "streetRegex =
     seqs [Bol, Grp (alts [Str ''CALLE'', Str ''AV'', Str ''JR'']), Opt (Chr (CHR ''.'')), spaceC]"

text \<open>\<open>/(\d{1,4}[-/. ]\d{1,2}[-/. ]\d{2,4})/\<close>\<close>
definition dateSepC :: regex where
  "dateSepC = Cls False (\<lambda>c. c \<in> set ''-/. '')"

definition dateRegex :: regex where
  "dateRegex = Grp (seqs [Rep 1 4 digitC, dateSepC, Rep 1 2 digitC, dateSepC, Rep 2 4 digitC])"

text \<open>\<open>/202[6-9]/\<close>\<close>
definition badYearRegex :: regex where
  "badYearRegex = seqs [Str ''202'', Cls False (\<lambda>c. c \<in> set ''6789'')]"

text \<open>\<open>/(?:factura|invoice|ticket|folio|chk|numero)\s*[:#.]?\s*([A-Z0-9-]+)/i\<close>\<close>
definition invoiceKeywords :: "string list" where
  "invoiceKeywords = [''factura'', ''invoice'', ''ticket'', ''folio'', ''chk'', ''numero'']"

definition isTokenChar :: "char \<Rightarrow> bool" where
  "isTokenChar c = (isUpperAZ c \<or> isDigit c \<or> c = CHR ''-'')"

text \<open>\<open>[:#.]\<close>\<close>
definition isInvoiceSep :: "char \<Rightarrow> bool" where
  "isInvoiceSep c = (c \<in> set '':#.'')"

definition invoiceRegex :: regex where
  "invoiceRegex =
     seqs [alts (map Str invoiceKeywords), Star spaceC, Opt (Cls False isInvoiceSep),
           Star spaceC, Grp (Plus (Cls False isTokenChar))]"

text \<open>\<open>numberPattern = "([0-9]{1,3}(?:[.,][0-9]{3})*(?:[.,][0-9]+)?)"\<close>\<close>
definition numberPattern :: regex where
  "numberPattern =
     Grp (seqs [Rep 1 3 digitC, Star (Seq sepC (Rep 3 3 digitC)), Opt (Seq sepC (Plus digitC))])"

text \<open>
  The shape shared by \<open>taxRegex\<close>, \<open>subtotalRegex\<close> and \<open>totalRegex\<close>:
  \<open>(?:kw1|kw2|...)[^0-9\n]*[:$]?\s*numberPattern\<close>, flag \<open>i\<close>.
\<close>
definition amountRegex :: "string list \<Rightarrow> regex" where
  "amountRegex keywords =
     seqs [alts (map Str keywords), Star (Cls True (\<lambda>c. isDigit c \<or> c = newline)),
           Opt (Cls False (\<lambda>c. c \<in> set '':$'')), Star spaceC, numberPattern]"

definition taxKeywords :: "string list" where
  "taxKeywords = [''tax'', ''iva'', ''impuesto'', ''itbms'', ''vat'']"

definition subtotalKeywords :: "string list" where
  "subtotalKeywords = [''subtotal'', ''sub-total'']"

definition totalKeywords :: "string list" where
  "totalKeywords = [''total'', ''pagar'', ''amount'', ''suma'']"

definition taxRegex :: regex where
  "taxRegex = amountRegex taxKeywords"

definition subtotalRegex :: regex where
  "subtotalRegex = amountRegex subtotalKeywords"

definition totalRegex :: regex where
  "totalRegex = amountRegex totalKeywords"

text \<open>\<open>new RegExp(`\\b${numberPattern}\\b`, 'g')\<close>\<close>
definition fallbackRegex :: regex where
  "fallbackRegex = seqs [WordB, numberPattern, WordB]"

subsection \<open>\<open>isValidDate\<close>\<close>

definition isValidDate :: "nat \<Rightarrow> string \<Rightarrow> bool" where
  "isValidDate currentYear dateStr =
     (case matchFirst False yearRegex dateStr of
        None \<Rightarrow> False
      | Some (whole, g) \<Rightarrow>
          (let year = parseInt (case g of None \<Rightarrow> [] | Some y \<Rightarrow> y)
           in year \<ge> 2000 \<and> year \<le> currentYear + 1))"

subsection \<open>\<open>parse\<close>\<close>

record ReceiptData =
  rawText :: string
  vendorName :: "string option"
  date :: "string option"
  invoiceNumber :: "string option"
  amount :: "rat option"
  subtotalAmount :: "rat option"
  taxAmount :: "rat option"

text \<open>\<open>const data: ReceiptData = { rawText }\<close>\<close>
definition initialData :: "string \<Rightarrow> ReceiptData" where
  "initialData text =
     \<lparr>rawText = text, vendorName = None, date = None, invoiceNumber = None,
      amount = None, subtotalAmount = None, taxAmount = None\<rparr>"

text \<open>\<open>line.trim()\<close>\<close>
definition trim :: "string \<Rightarrow> string" where
  "trim s = rev (dropWhile isSpace (rev (dropWhile isSpace s)))"

text \<open>Section 1: the lines of the text, trimmed and filtered.\<close>
definition keepLine :: "string \<Rightarrow> bool" where
  "keepLine line = (length line > 3 \<and> regexTest False alnumRegex line)"

definition cleanLines :: "string \<Rightarrow> string list" where
  "cleanLines text = filter keepLine (map trim (splitOn newline text))"

text \<open>Section 2: the vendor name.\<close>
definition skipWords :: "string list" where
  "skipWords =
     [''BIENVENIDO'', ''WELCOME'', ''FACTURA'', ''INVOICE'', ''SENIAT'', ''DGI'',
      ''RUC'', ''RIF'', ''NIT'', ''FISCAL'', ''ORIGINAL'', ''COPIA'', ''CLIENTE'']"

fun startsWith :: "string \<Rightarrow> string \<Rightarrow> bool" where
  "startsWith s [] = True"
| "startsWith [] (w # ws) = False"
| "startsWith (c # cs) (w # ws) = (c = w \<and> startsWith cs ws)"

text \<open>\<open>s.includes(w)\<close>\<close>
fun includesStr :: "string \<Rightarrow> string \<Rightarrow> bool" where
  "includesStr [] w = (w = [])"
| "includesStr (c # cs) w = (startsWith (c # cs) w \<or> includesStr cs w)"

definition vendorCandidate :: "string \<Rightarrow> bool" where
  "vendorCandidate line =
     (let upperLine = toUpperCase line
      in \<not> list_ex (\<lambda>word. includesStr upperLine word) skipWords
         \<and> matchFirst False streetRegex upperLine = None
         \<and> length line < 50)"

text \<open>The loop over the lines, left at the first candidate (\<open>break\<close>).\<close>
fun vendorLoop :: "string list \<Rightarrow> ReceiptData \<Rightarrow> ReceiptData" where
  "vendorLoop [] data = data"
| "vendorLoop (line # rest) data =
     (if vendorCandidate line then data\<lparr>vendorName := Some line\<rparr> else vendorLoop rest data)"

text \<open>Section 3: the date.\<close>
fun dateLoop :: "nat \<Rightarrow> string list \<Rightarrow> ReceiptData \<Rightarrow> ReceiptData" where
  "dateLoop currentYear [] data = data"
| "dateLoop currentYear (dateStr # rest) data =
     (if isValidDate currentYear dateStr then data\<lparr>date := Some dateStr\<rparr>
      else dateLoop currentYear rest data)"

text \<open>The decimal digits of a number, for the template string \<open>`${currentYear}`\<close>.\<close>
fun natToString :: "nat \<Rightarrow> string" where
  "natToString n =
     (if n < 10 then [char_of (48 + n)] else natToString (n div 10) @ [char_of (48 + n mod 10)])"

declare natToString.simps [simp del]

text \<open>A string is falsy when it is absent or empty; a number when it is absent or zero.\<close>
definition falsyString :: "string option \<Rightarrow> bool" where
  "falsyString v = (case v of None \<Rightarrow> True | Some s \<Rightarrow> s = [])"

definition falsyNumber :: "rat option \<Rightarrow> bool" where
  "falsyNumber v = (case v of None \<Rightarrow> True | Some x \<Rightarrow> x = 0)"

definition dateFallback :: "nat \<Rightarrow> string list \<Rightarrow> ReceiptData \<Rightarrow> ReceiptData" where
  "dateFallback currentYear allDateMatches data =
     (if falsyString (date data) \<and> length allDateMatches > 0 then
        (case allDateMatches of
           [] \<Rightarrow> data
         | badDate # _ \<Rightarrow>
             if badDate \<noteq> []
             then data\<lparr>date := Some (replaceFirstMatch False badYearRegex (natToString currentYear) badDate)\<rparr>
             else data)
      else data)"

text \<open>Section 4: the invoice number.\<close>
definition group1 :: "string \<times> string option \<Rightarrow> string" where
  "group1 m = (case snd m of None \<Rightarrow> [] | Some g \<Rightarrow> g)"

definition invoiceStep :: "ReceiptData \<Rightarrow> ReceiptData" where
  "invoiceStep data =
     (case matchFirst True invoiceRegex (rawText data) of
        None \<Rightarrow> data
      | Some invoiceMatch \<Rightarrow> data\<lparr>invoiceNumber := Some (group1 invoiceMatch)\<rparr>)"

text \<open>Section 5: tax, subtotal and total, each anchored on its keywords.\<close>
definition taxStep :: "ReceiptData \<Rightarrow> ReceiptData" where
  "taxStep data =
     (case matchFirst True taxRegex (rawText data) of
        None \<Rightarrow> data
      | Some taxMatch \<Rightarrow> data\<lparr>taxAmount := parsePrice (group1 taxMatch)\<rparr>)"

definition subtotalStep :: "ReceiptData \<Rightarrow> ReceiptData" where
  "subtotalStep data =
     (case matchFirst True subtotalRegex (rawText data) of
        None \<Rightarrow> data
      | Some subtotalMatch \<Rightarrow> data\<lparr>subtotalAmount := parsePrice (group1 subtotalMatch)\<rparr>)"

definition totalStep :: "ReceiptData \<Rightarrow> ReceiptData" where
  "totalStep data =
     (case matchFirst True totalRegex (rawText data) of
        None \<Rightarrow> data
      | Some totalMatch \<Rightarrow> data\<lparr>amount := parsePrice (group1 totalMatch)\<rparr>)"

text \<open>Section 6: the fallback for the total.\<close>
text \<open>\<open>matches.map(p => this.parsePrice(p)).filter(p => p !== undefined && p > 0)\<close>\<close>
fun positivePrices :: "string list \<Rightarrow> rat list" where
  "positivePrices [] = []"
| "positivePrices (p # ps) =
     (case parsePrice p of
        None \<Rightarrow> positivePrices ps
      | Some v \<Rightarrow> if v > 0 then v # positivePrices ps else positivePrices ps)"

text \<open>
  The value of \<open>Math.max(...xs)\<close> on a non-empty list, when the call returns (see
  \<open>mathMaxSpread\<close> below for the call that does not).
\<close>
definition maxOf :: "rat \<Rightarrow> rat list \<Rightarrow> rat" where
  "maxOf x xs = foldl max x xs"

definition fallbackStep :: "ReceiptData \<Rightarrow> ReceiptData" where
  "fallbackStep data =
     (if falsyNumber (amount data) then
        (case positivePrices (matchAll False fallbackRegex (rawText data)) of
           [] \<Rightarrow> data
         | x # xs \<Rightarrow> data\<lparr>amount := Some (maxOf x xs)\<rparr>)
      else data)"

text \<open>Sections 1 to 5 of \<open>parse\<close>, in the order of the source.\<close>
definition keywordFields :: "nat \<Rightarrow> string \<Rightarrow> ReceiptData" where
  "keywordFields currentYear text =
     (let data0 = initialData text;
          lines = cleanLines text;
          data1 = vendorLoop lines data0;
          allDateMatches = matchAll False dateRegex text;
          data2 = dateLoop currentYear allDateMatches data1;
          data3 = dateFallback currentYear allDateMatches data2;
          data4 = invoiceStep data3;
          data5 = taxStep data4;
          data6 = subtotalStep data5
      in totalStep data6)"

definition parse :: "nat \<Rightarrow> string \<Rightarrow> ReceiptData" where
  "parse currentYear text = fallbackStep (keywordFields currentYear text)"

subsection \<open>The exception of \<open>parse\<close>\<close>

text \<open>
  \<open>Math.max(...numericPrices)\<close> spreads the array: every element becomes an argument of
  the call, and the engine throws a \<open>RangeError\<close> when there are more arguments than it
  can pass (of the order of a hundred thousand on V8). The limit is a parameter,
  \<open>argLimit\<close>. This is the only statement of \<open>parse\<close> that can throw: the source has no
  \<open>throw\<close>, and every index it reads exists.
\<close>
datatype error = RangeError

definition mathMaxSpread :: "nat \<Rightarrow> rat \<Rightarrow> rat list \<Rightarrow> error + rat" where
  "mathMaxSpread argLimit x xs =
     (if length (x # xs) > argLimit then Inl RangeError else Inr (maxOf x xs))"

text \<open>Section 6 with the exception; nothing catches it, so it leaves \<open>parse\<close>.\<close>
definition fallbackStepE :: "nat \<Rightarrow> ReceiptData \<Rightarrow> error + ReceiptData" where
  "fallbackStepE argLimit data =
     (if falsyNumber (amount data) then
        (case positivePrices (matchAll False fallbackRegex (rawText data)) of
           [] \<Rightarrow> Inr data
         | x # xs \<Rightarrow>
             (case mathMaxSpread argLimit x xs of
                Inl e \<Rightarrow> Inl e
              | Inr v \<Rightarrow> Inr (data\<lparr>amount := Some v\<rparr>)))
      else Inr data)"

text \<open>
  \<open>parse\<close> as it runs: \<open>Inl\<close> is the exception, \<open>Inr\<close> the record returned. The function
  \<open>parse\<close> above is the record of the second case (lemma \<open>parseE_parse\<close>).
\<close>
definition parseE :: "nat \<Rightarrow> nat \<Rightarrow> string \<Rightarrow> error + ReceiptData" where
  "parseE argLimit currentYear text = fallbackStepE argLimit (keywordFields currentYear text)"

text \<open>A text of \<open>n\<close> numbers and no keyword: \<open>"1 ".repeat(n)\<close>.\<close>
definition onesText :: "nat \<Rightarrow> string" where
  "onesText n = concat (replicate n ''1 '')"

text \<open>The text of the specification's end-to-end scenario.\<close>
definition sampleText :: string where
  "sampleText =
     ''SUPERMARKET ABC'' @ [newline] @
     ''123 Main Street'' @ [newline] @
     ''Invoice #INV-2024-001'' @ [newline] @
     ''Date: 2024-01-15'' @ [newline] @
     ''Item 1: $50.00'' @ [newline] @
     ''Item 2: $30.00'' @ [newline] @
     ''Subtotal: $80.00'' @ [newline] @
     ''Tax (10%): $8.00'' @ [newline] @
     ''TOTAL: $88.00''"

subsection \<open>Auxiliary notions for the statements\<close>

text \<open>The segment after the last occurrence of a separator.\<close>
definition lastSegment :: "char \<Rightarrow> string \<Rightarrow> string" where
  "lastSegment sep s = rev (takeWhile (\<lambda>c. c \<noteq> sep) (rev s))"

text \<open>The value \<open>parseFloat\<close> reads when there is neither white space nor a sign to skip.\<close>
definition decimalValue :: "string \<Rightarrow> rat option" where
  "decimalValue body =
     (let ip = takeWhile isDigit body;
          rest = dropWhile isDigit body;
          fp = (case rest of [] \<Rightarrow> [] | c # t \<Rightarrow> if c = CHR ''.'' then takeWhile isDigit t else [])
      in if ip = [] \<and> fp = [] then None
         else Some (of_nat (digitsToNat ip) + of_nat (digitsToNat fp) / 10 ^ length fp))"

text \<open>The first run of four digits of a string, found by a direct scan.\<close>
fun yearAt :: "string \<Rightarrow> string option" where
  "yearAt (a # b # c # d # rest) =
     (if isDigit a \<and> isDigit b \<and> isDigit c \<and> isDigit d then Some [a, b, c, d] else None)"
| "yearAt _ = None"

fun firstYearRun :: "string \<Rightarrow> string option" where
  "firstYearRun [] = None"
| "firstYearRun (c # cs) =
     (case yearAt (c # cs) of Some y \<Rightarrow> Some y | None \<Rightarrow> firstYearRun cs)"

text \<open>A candidate is plausible when its first four-digit run is a year from 2000 to next year.\<close>
definition plausibleYear :: "nat \<Rightarrow> string \<Rightarrow> bool" where
  "plausibleYear currentYear candidate =
     (case firstYearRun candidate of
        None \<Rightarrow> False
      | Some y \<Rightarrow> 2000 \<le> digitsToNat y \<and> digitsToNat y \<le> currentYear + 1)"

text \<open>The first occurrence of 2026, 2027, 2028 or 2029 is replaced, by a direct scan.\<close>
fun badYearAt :: "string \<Rightarrow> bool" where
  "badYearAt (a # b # c # d # rest) =
     (a = CHR ''2'' \<and> b = CHR ''0'' \<and> c = CHR ''2'' \<and> d \<in> set ''6789'')"
| "badYearAt _ = False"

fun replaceBadYear :: "string \<Rightarrow> string \<Rightarrow> string" where
  "replaceBadYear repl [] = []"
| "replaceBadYear repl (c # cs) =
     (if badYearAt (c # cs) then repl @ drop 4 (c # cs) else c # replaceBadYear repl cs)"

text \<open>
  An end state lies to the right of a start state, on the same text: the matcher has
  consumed the word \<open>w\<close>.
\<close>
definition advances :: "mstate \<Rightarrow> mstate \<Rightarrow> bool" where
  "advances s e = (\<exists>w. fst e = rev w @ fst s \<and> fst (snd s) = w @ fst (snd e))"

text \<open>The bit patterns of the letters, for the evaluation of the character classes.\<close>
definition letterBits :: "bool \<Rightarrow> bool \<Rightarrow> bool \<Rightarrow> bool \<Rightarrow> bool \<Rightarrow> bool" where
  "letterBits b0 b1 b2 b3 b4 = ((b0 \<or> b1 \<or> b2 \<or> b3 \<or> b4) \<and> \<not> (b4 \<and> b3 \<and> (b2 \<or> (b1 \<and> b0))))"

definition latinBits :: "bool \<Rightarrow> bool \<Rightarrow> bool \<Rightarrow> bool \<Rightarrow> bool \<Rightarrow> bool" where
  "latinBits b0 b1 b2 b3 b4 = (\<not> (b4 \<and> b2 \<and> b1 \<and> b0))"

text \<open>A word is a prefix of a text, up to the case of letters when the flag is set.\<close>
fun startsWithCI :: "bool \<Rightarrow> string \<Rightarrow> string \<Rightarrow> bool" where
  "startsWithCI ic r [] = True"
| "startsWithCI ic [] (a # w) = False"
| "startsWithCI ic (c # r) (a # w) = ((c = a \<or> (ic \<and> swapCase c = a)) \<and> startsWithCI ic r w)"

text \<open>What may follow the street abbreviation: white space, or a dot and white space.\<close>
fun afterStreetAbbr :: "string \<Rightarrow> bool" where
  "afterStreetAbbr [] = False"
| "afterStreetAbbr [c] = isSpace c"
| "afterStreetAbbr (c # d # r) = (isSpace c \<or> (c = CHR ''.'' \<and> isSpace d))"

definition streetPrefixed :: "string \<Rightarrow> bool" where
  "streetPrefixed u =
     list_ex (\<lambda>abbr. startsWith u abbr \<and> afterStreetAbbr (drop (length abbr) u))
       [''CALLE'', ''AV'', ''JR'']"

text \<open>The text of group 1 in the first end state of a matcher, if there is an end state.\<close>
definition firstGroup :: "mstate list \<Rightarrow> string option" where
  "firstGroup es =
     (case es of [] \<Rightarrow> None | e # _ \<Rightarrow> Some (case snd (snd e) of None \<Rightarrow> [] | Some g \<Rightarrow> g))"

fun firstSome :: "('a \<Rightarrow> 'b option) \<Rightarrow> 'a list \<Rightarrow> 'b option" where
  "firstSome f [] = None"
| "firstSome f (x # xs) = (case f x of Some y \<Rightarrow> Some y | None \<Rightarrow> firstSome f xs)"

text \<open>\<open>[A-Z0-9-]\<close> under the flag \<open>i\<close>: letters of either case, digits and the hyphen.\<close>
definition isTokenCharCI :: "char \<Rightarrow> bool" where
  "isTokenCharCI c = (isUpperAZ c \<or> isLowerAZ c \<or> isDigit c \<or> c = CHR ''-'')"

definition tokenOf :: "string \<Rightarrow> string option" where
  "tokenOf r = (if takeWhile isTokenCharCI r = [] then None else Some (takeWhile isTokenCharCI r))"

text \<open>
  After a keyword: white space, at most one of \<open>:\<close>, \<open>#\<close>, \<open>.\<close>, white space, and then the
  longest run of token characters, which must not be empty.
\<close>
definition invoiceTokenAfter :: "string \<Rightarrow> string option" where
  "invoiceTokenAfter r =
     (let r1 = dropWhile isSpace r;
          r2 = (case r1 of [] \<Rightarrow> [] | c # r' \<Rightarrow> if isInvoiceSep c then r' else r1);
          r3 = dropWhile isSpace r2
      in tokenOf r3)"

definition invoiceTokenAt :: "string \<Rightarrow> string option" where
  "invoiceTokenAt s =
     firstSome (\<lambda>kw. if startsWithCI True s kw then invoiceTokenAfter (drop (length kw) s) else None)
       invoiceKeywords"

fun firstInvoiceToken :: "string \<Rightarrow> string option" where
  "firstInvoiceToken [] = None"
| "firstInvoiceToken (c # cs) =
     (case invoiceTokenAt (c # cs) of Some t \<Rightarrow> Some t | None \<Rightarrow> firstInvoiceToken cs)"

definition tokenGroup :: regex where
  "tokenGroup = Seq (Grp (Plus (Cls False isTokenChar))) Eps"

definition spacesToken :: regex where
  "spacesToken = Seq (Star spaceC) tokenGroup"

definition sepSpacesToken :: regex where
  "sepSpacesToken = Seq (Opt (Cls False isInvoiceSep)) spacesToken"

definition afterKeyword :: regex where
  "afterKeyword = Seq (Star spaceC) sepSpacesToken"

definition sepThenToken :: "string \<Rightarrow> string option" where
  "sepThenToken r =
     (case r of
        [] \<Rightarrow> None
      | c # r' \<Rightarrow> if isInvoiceSep c then tokenOf (dropWhile isSpace r')
                  else tokenOf (dropWhile isSpace r))"

definition afterNonWord :: "string \<Rightarrow> bool" where
  "afterNonWord l = (case l of [] \<Rightarrow> True | c # _ \<Rightarrow> \<not> isWordChar c)"

section \<open>Evaluation of the character classes\<close>

lemmas char_eval =
  code_def isDigit_def isUpperAZ_def isLowerAZ_def letterBits_def latinBits_def
  char_of_def bit_0 bit_Suc_0_iff

lemma isDigit_code [code]:
  "isDigit (Char b0 b1 b2 b3 b4 b5 b6 b7) = (b4 \<and> b5 \<and> \<not> b6 \<and> \<not> b7 \<and> \<not> (b3 \<and> (b1 \<or> b2)))"
  by (cases b0; cases b1; cases b2; cases b3; cases b4; cases b5; cases b6; cases b7;
      simp add: char_eval)

lemma isUpperAZ_code [code]:
  "isUpperAZ (Char b0 b1 b2 b3 b4 b5 b6 b7) = (\<not> b7 \<and> b6 \<and> \<not> b5 \<and> letterBits b0 b1 b2 b3 b4)"
  by (cases b0; cases b1; cases b2; cases b3; cases b4; cases b5; cases b6; cases b7;
      simp add: char_eval)

lemma isLowerAZ_code [code]:
  "isLowerAZ (Char b0 b1 b2 b3 b4 b5 b6 b7) = (\<not> b7 \<and> b6 \<and> b5 \<and> letterBits b0 b1 b2 b3 b4)"
  by (cases b0; cases b1; cases b2; cases b3; cases b4; cases b5; cases b6; cases b7;
      simp add: char_eval)

lemma swapCase_code [code]:
  "swapCase (Char b0 b1 b2 b3 b4 b5 b6 b7) =
     (if b6 \<and> (if b7 then latinBits b0 b1 b2 b3 b4 else letterBits b0 b1 b2 b3 b4)
      then Char b0 b1 b2 b3 b4 (\<not> b5) b6 b7 else Char b0 b1 b2 b3 b4 b5 b6 b7)"
  by (cases b0; cases b1; cases b2; cases b3; cases b4; cases b5; cases b6; cases b7;
      simp add: swapCase_def char_eval)

lemma isSpace_code [code]:
  "isSpace (Char b0 b1 b2 b3 b4 b5 b6 b7) =
     (\<not> b6 \<and> \<not> b4 \<and>
       (if b5 then \<not> b0 \<and> \<not> b1 \<and> \<not> b2 \<and> \<not> b3
        else \<not> b7 \<and> b3 \<and> (if b2 then \<not> b1 else b0 \<or> b1)))"
  by (cases b0; cases b1; cases b2; cases b3; cases b4; cases b5; cases b6; cases b7;
      simp add: isSpace_def char_eval)

lemma upperChar_code [code]:
  "upperChar (Char b0 b1 b2 b3 b4 b5 b6 b7) =
     (if b7 \<and> b6 \<and> \<not> b5 \<and> b4 \<and> b3 \<and> b2 \<and> b1 \<and> b0 then ''SS''
      else if b5 \<and> b6 \<and> (if b7 then latinBits b0 b1 b2 b3 b4 else letterBits b0 b1 b2 b3 b4)
      then [Char b0 b1 b2 b3 b4 False b6 b7]
      else [Char b0 b1 b2 b3 b4 b5 b6 b7])"
  by (cases b0; cases b1; cases b2; cases b3; cases b4; cases b5; cases b6; cases b7;
      simp add: upperChar_def char_eval)

section \<open>\<open>parsePrice\<close>\<close>

lemma sep_not_digit: "isSep c \<Longrightarrow> \<not> isDigit c"
  by (auto simp: isSep_def isDigit_def code_def)

lemma digit_not_space: "isDigit c \<Longrightarrow> \<not> isSpace c"
  by (auto simp: isSpace_def isDigit_def)

lemma sep_not_space: "isSep c \<Longrightarrow> \<not> isSpace c"
  by (auto simp: isSep_def isSpace_def code_def)

lemma digit_not_sign: "isDigit c \<Longrightarrow> c \<noteq> CHR ''-'' \<and> c \<noteq> CHR ''+''"
  by (auto simp: isDigit_def code_def)

lemma digitsToNat_Nil: "digitsToNat [] = 0"
  by (simp add: digitsToNat_def)

lemma parseFloat_plain:
  assumes "\<forall>c \<in> set s. isDigit c \<or> isSep c"
  shows "parseFloat s = decimalValue s"
proof (cases s)
  case Nil
  then show ?thesis by (simp add: parseFloat_def decimalValue_def)
next
  case (Cons c t)
  with assms have c: "isDigit c \<or> isSep c" by simp
  have 1: "\<not> isSpace c"
    using c digit_not_space [of c] sep_not_space [of c] by blast
  have 2: "c \<noteq> CHR ''-''" "c \<noteq> CHR ''+''"
    using c digit_not_sign [of c] by (auto simp: isSep_def)
  show ?thesis
    unfolding parseFloat_def decimalValue_def Cons using 1 2 by (simp add: Let_def)
qed

lemma decimalValue_nonneg: "decimalValue s = Some v \<Longrightarrow> 0 \<le> v"
  by (auto simp: decimalValue_def Let_def split: if_splits)

lemma cleanPrice_alphabet: "\<forall>c \<in> set (cleanPrice t). isDigit c \<or> isSep c"
proof -
  have "set (rev (dropWhile isSep (rev xs))) \<subseteq> set xs" for xs :: string
    using set_dropWhileD by fastforce
  then show ?thesis
    unfolding cleanPrice_def stripTrailingSeps_def by fastforce
qed

lemma replaceFirst_alphabet:
  "\<forall>c \<in> set xs. P c \<Longrightarrow> P b \<Longrightarrow> \<forall>c \<in> set (replaceFirst a b xs). P c"
  by (induction xs) auto

lemma normalizeNum_alphabet:
  assumes "\<forall>c \<in> set xs. isDigit c \<or> isSep c"
  shows "\<forall>c \<in> set (normalizeNum xs). isDigit c \<or> isSep c"
proof -
  have dot: "isDigit (CHR ''.'') \<or> isSep (CHR ''.'')" by (simp add: isSep_def)
  have rm: "\<forall>c \<in> set (removeChar a xs). isDigit c \<or> isSep c" for a
    using assms by (simp add: removeChar_def)
  have rf: "\<forall>c \<in> set (replaceFirst (CHR '','') (CHR ''.'') (removeChar (CHR ''.'') xs)). isDigit c \<or> isSep c"
    using replaceFirst_alphabet [OF rm dot] .
  have ra: "\<forall>c \<in> set (replaceAllChar (CHR '','') (CHR ''.'') xs). isDigit c \<or> isSep c"
    using assms dot by (auto simp: replaceAllChar_def)
  show ?thesis
    unfolding normalizeNum_def Let_def using assms rm rf ra by (simp del: set_removeAll)
qed

lemma parsePrice_nonneg: "parsePrice t = Some v \<Longrightarrow> 0 \<le> v"
proof -
  assume a: "parsePrice t = Some v"
  have "\<forall>c \<in> set (normalizeNum (cleanPrice t)). isDigit c \<or> isSep c"
    by (rule normalizeNum_alphabet [OF cleanPrice_alphabet])
  then have "parseFloat (normalizeNum (cleanPrice t)) = decimalValue (normalizeNum (cleanPrice t))"
    by (rule parseFloat_plain)
  with a show ?thesis
    by (auto simp: parsePrice_def Let_def split: if_splits dest: decimalValue_nonneg [OF sym])
qed

lemma splitOn_nonempty: "splitOn sep xs \<noteq> []"
  by (induction xs) (auto split: list.splits)

lemma splitOn_single: "sep \<notin> set xs \<Longrightarrow> splitOn sep xs = [xs]"
  by (induction xs) auto

lemma splitOn_many: "sep \<in> set xs \<Longrightarrow> length (splitOn sep xs) \<ge> 2"
proof (induction xs)
  case Nil
  then show ?case by simp
next
  case (Cons x xs)
  show ?case
  proof (cases "x = sep")
    case True
    then show ?thesis using splitOn_nonempty [of sep xs]
      by (cases "splitOn sep xs") auto
  next
    case False
    with Cons show ?thesis by (auto split: list.splits)
  qed
qed

lemma lastSegment_Cons:
  "lastSegment sep (x # xs) = (if sep \<in> set xs then lastSegment sep xs else if x = sep then xs else x # xs)"
  by (auto simp: lastSegment_def takeWhile_append takeWhile_eq_all_conv)

lemma last_splitOn: "last (splitOn sep xs) = lastSegment sep xs"
proof (induction xs)
  case Nil
  then show ?case by (simp add: lastSegment_def)
next
  case (Cons x xs)
  show ?case
  proof (cases "sep \<in> set xs")
    case True
    from splitOn_many [OF True] obtain p q ps where ps: "splitOn sep xs = p # q # ps"
      by (cases "splitOn sep xs"; cases "tl (splitOn sep xs)") auto
    with Cons True show ?thesis
      by (simp add: lastSegment_Cons)
  next
    case False
    then show ?thesis
      by (simp add: lastSegment_Cons splitOn_single)
  qed
qed

lemma decimalValue_digits:
  assumes "ds \<noteq> []" "\<forall>c \<in> set ds. isDigit c"
  shows "decimalValue ds = Some (of_nat (digitsToNat ds))"
proof -
  have tw: "takeWhile isDigit ds = ds" and dw: "dropWhile isDigit ds = []"
    using assms by (simp_all add: takeWhile_eq_all_conv)
  show ?thesis
    unfolding decimalValue_def tw dw using assms(1) by (simp add: digitsToNat_Nil)
qed

lemma stripTrailingSeps_last:
  "stripTrailingSeps xs \<noteq> [] \<Longrightarrow> \<not> isSep (last (stripTrailingSeps xs))"
proof -
  assume a: "stripTrailingSeps xs \<noteq> []"
  then have "dropWhile isSep (rev xs) \<noteq> []" by (simp add: stripTrailingSeps_def)
  then have "\<not> isSep (hd (dropWhile isSep (rev xs)))" by (rule hd_dropWhile)
  then show ?thesis using a by (simp add: stripTrailingSeps_def last_rev)
qed

lemma cleanPrice_last_digit:
  assumes "cleanPrice t \<noteq> []"
  shows "isDigit (last (cleanPrice t))"
proof -
  have "\<not> isSep (last (cleanPrice t))"
    using assms stripTrailingSeps_last unfolding cleanPrice_def by blast
  moreover have "last (cleanPrice t) \<in> set (cleanPrice t)"
    using assms by simp
  ultimately show ?thesis using cleanPrice_alphabet by blast
qed

lemma lastIndexOfFrom_snoc:
  "lastIndexOfFrom c i f (xs @ [x]) = (if x = c then i + int (length xs) else lastIndexOfFrom c i f xs)"
  by (induction xs arbitrary: i f) auto

lemma lastIndexOfFrom_less:
  "f < i \<Longrightarrow> lastIndexOfFrom c i f xs < i + int (length xs)"
proof (induction xs arbitrary: i f)
  case Nil
  then show ?case by simp
next
  case (Cons x xs)
  have "lastIndexOfFrom c (i + 1) (if x = c then i else f) xs < (i + 1) + int (length xs)"
    using Cons.prems by (intro Cons.IH) auto
  then show ?case by simp
qed

lemma lastIndexOf_compare:
  assumes "a \<noteq> b" "a \<in> set xs" "b \<in> set xs"
  shows "(lastIndexOf a xs > lastIndexOf b xs) = (last (filter (\<lambda>x. x = a \<or> x = b) xs) = a)"
  using assms(2,3)
proof (induction xs rule: rev_induct)
  case Nil
  then show ?case by simp
next
  case (snoc x xs)
  consider "x = a" | "x = b" | "x \<noteq> a" "x \<noteq> b" by blast
  then show ?case
  proof cases
    case 1
    have "lastIndexOfFrom b 0 (- 1) xs < 0 + int (length xs)"
      by (rule lastIndexOfFrom_less) simp
    with 1 assms(1) show ?thesis
      by (simp add: lastIndexOf_def lastIndexOfFrom_snoc)
  next
    case 2
    have "lastIndexOfFrom a 0 (- 1) xs < 0 + int (length xs)"
      by (rule lastIndexOfFrom_less) simp
    with 2 assms(1) show ?thesis
      by (auto simp: lastIndexOf_def lastIndexOfFrom_snoc)
  next
    case 3
    with snoc have "a \<in> set xs" "b \<in> set xs" by auto
    with snoc.IH 3 show ?thesis
      by (simp add: lastIndexOf_def lastIndexOfFrom_snoc)
  qed
qed

lemma takeWhile_digit_replaceFirst:
  "takeWhile isDigit (replaceFirst (CHR '','') (CHR ''.'') xs) = takeWhile isDigit xs"
  by (induction xs) (auto simp: isDigit_def code_def)

lemma takeWhile_digit_replaceAll:
  "takeWhile isDigit (replaceAllChar (CHR '','') (CHR ''.'') xs) = takeWhile isDigit xs"
  by (induction xs) (auto simp: replaceAllChar_def isDigit_def code_def)

lemma dropWhile_digit_replaceFirst:
  "dropWhile isDigit (replaceFirst (CHR '','') (CHR ''.'') xs)
     = replaceFirst (CHR '','') (CHR ''.'') (dropWhile isDigit xs)"
  by (induction xs) (auto simp: isDigit_def code_def)

lemma dropWhile_digit_replaceAll:
  "dropWhile isDigit (replaceAllChar (CHR '','') (CHR ''.'') xs)
     = replaceAllChar (CHR '','') (CHR ''.'') (dropWhile isDigit xs)"
  by (induction xs) (auto simp: replaceAllChar_def isDigit_def code_def)

lemma fraction_replaceFirst:
  "\<not> isDigit c \<Longrightarrow>
   (case replaceFirst (CHR '','') (CHR ''.'') (c # t) of [] \<Rightarrow> []
    | c # t \<Rightarrow> if c = CHR ''.'' then takeWhile isDigit t else [])
   = (case replaceAllChar (CHR '','') (CHR ''.'') (c # t) of [] \<Rightarrow> []
    | c # t \<Rightarrow> if c = CHR ''.'' then takeWhile isDigit t else [])"
  using takeWhile_digit_replaceAll [of t]
  by (simp add: replaceAllChar_def takeWhile_digit_replaceFirst)

lemma decimalValue_replaceFirst:
  "decimalValue (replaceFirst (CHR '','') (CHR ''.'') xs)
     = decimalValue (replaceAllChar (CHR '','') (CHR ''.'') xs)"
proof (cases "dropWhile isDigit xs")
  case Nil
  show ?thesis
    unfolding decimalValue_def takeWhile_digit_replaceFirst takeWhile_digit_replaceAll
        dropWhile_digit_replaceFirst dropWhile_digit_replaceAll Nil
    by (simp add: replaceAllChar_def)
next
  case (Cons c t)
  then have "\<not> isDigit c"
    using hd_dropWhile [of isDigit xs] by simp
  then have frac: "(case replaceFirst (CHR '','') (CHR ''.'') (c # t) of [] \<Rightarrow> []
      | c # t \<Rightarrow> if c = CHR ''.'' then takeWhile isDigit t else [])
     = (case replaceAllChar (CHR '','') (CHR ''.'') (c # t) of [] \<Rightarrow> []
      | c # t \<Rightarrow> if c = CHR ''.'' then takeWhile isDigit t else [])"
    by (rule fraction_replaceFirst)
  show ?thesis
    unfolding decimalValue_def takeWhile_digit_replaceFirst takeWhile_digit_replaceAll
        dropWhile_digit_replaceFirst dropWhile_digit_replaceAll Cons Let_def frac
    by (rule refl)
qed

section \<open>The matcher\<close>

lemma advances_refl: "advances s s"
  by (simp add: advances_def)

lemma advances_trans: "advances s m \<Longrightarrow> advances m e \<Longrightarrow> advances s e"
  by (auto simp: advances_def)

lemma advances_remaining: "advances s e \<Longrightarrow> remaining e \<le> remaining s"
  by (auto simp: advances_def remaining_def)

lemma consume_advances: "e \<in> set (consume P s) \<Longrightarrow> advances s e \<and> remaining e < remaining s"
  by (cases "(P, s)" rule: consume.cases) (auto simp: advances_def remaining_def split: if_splits)

lemma starM_advances:
  "(\<And>s e. e \<in> set (m s) \<Longrightarrow> advances s e) \<Longrightarrow> e \<in> set (starM m s) \<Longrightarrow> advances s e"
proof (induction m s arbitrary: e rule: starM.induct)
  case (1 m s)
  from "1.prems"(2) consider "e = s"
    | s' where "s' \<in> set (m s)" "remaining s' < remaining s" "e \<in> set (starM m s')"
    by (subst (asm) starM.simps) (auto split: if_splits)
  then show ?case
  proof cases
    case 1
    then show ?thesis by (simp add: advances_refl)
  next
    case 2
    have "advances s s'" by (rule "1.prems"(1) [OF 2(1)])
    moreover have "advances s' e" by (rule "1.IH" [OF 2(1,2) "1.prems"(1) 2(3)])
    ultimately show ?thesis by (rule advances_trans)
  qed
qed

lemma repM_advances:
  "(\<And>s e. e \<in> set (m s) \<Longrightarrow> advances s e) \<Longrightarrow> e \<in> set (repM k n m s) \<Longrightarrow> advances s e"
proof (induction k n m s arbitrary: e rule: repM.induct)
  case (1 m s)
  then show ?case by (simp add: advances_refl)
next
  case (2 n m s)
  from "2.prems"(2) consider "e = s"
    | s' where "s' \<in> set (m s)" "remaining s' < remaining s" "e \<in> set (repM 0 n m s')"
    by (auto split: if_splits)
  then show ?case
  proof cases
    case 1
    then show ?thesis by (simp add: advances_refl)
  next
    case 2
    have "advances s s'" by (rule "2.prems"(1) [OF 2(1)])
    moreover have "advances s' e" by (rule "2.IH" [OF 2(1,2) "2.prems"(1) 2(3)])
    ultimately show ?thesis by (rule advances_trans)
  qed
next
  case (3 k m s)
  then show ?case by simp
next
  case (4 k n m s)
  from "4.prems"(2) obtain s' where s': "s' \<in> set (m s)" "e \<in> set (repM k n m s')"
    by auto
  have "advances s s'" by (rule "4.prems"(1) [OF s'(1)])
  moreover have "advances s' e" by (rule "4.IH" [OF s'(1) "4.prems"(1) s'(2)])
  ultimately show ?case by (rule advances_trans)
qed

lemma setGroup_advances: "advances s e \<Longrightarrow> advances s (setGroup s' e)"
  by (simp add: advances_def setGroup_def)

lemma run_advances: "e \<in> set (run ic re s) \<Longrightarrow> advances s e"
proof (induction re arbitrary: s e)
  case (Chr a)
  then show ?case using consume_advances by simp
next
  case (Cls neg P)
  then show ?case using consume_advances by simp
next
  case (Seq a b)
  from Seq.prems obtain m where m: "m \<in> set (run ic a s)" "e \<in> set (run ic b m)"
    by auto
  have "advances s m" by (rule Seq.IH(1) [OF m(1)])
  moreover have "advances m e" by (rule Seq.IH(2) [OF m(2)])
  ultimately show ?case by (rule advances_trans)
next
  case (Alt a b)
  from Alt.prems have "e \<in> set (run ic a s) \<or> e \<in> set (run ic b s)" by simp
  then show ?case using Alt.IH by blast
next
  case (Opt a)
  from Opt.prems have "e \<in> set (repM 0 1 (run ic a) s)" by simp
  then show ?case by (rule repM_advances [rotated]) (rule Opt.IH)
next
  case (Star a)
  from Star.prems have "e \<in> set (starM (run ic a) s)" by simp
  then show ?case by (rule starM_advances [rotated]) (rule Star.IH)
next
  case (Rep k n a)
  from Rep.prems have "e \<in> set (repM k n (run ic a) s)" by simp
  then show ?case by (rule repM_advances [rotated]) (rule Rep.IH)
next
  case (Grp a)
  from Grp.prems obtain e' where e': "e' \<in> set (run ic a s)" "e = setGroup s e'"
    by auto
  have "advances s e'" by (rule Grp.IH [OF e'(1)])
  then show ?case unfolding e'(2) by (rule setGroup_advances)
next
  case Bol
  then show ?case by (auto simp: advances_refl split: if_splits)
next
  case WordB
  then show ?case by (auto simp: advances_refl split: if_splits)
next
  case Eps
  then show ?case by (simp add: advances_refl)
qed

lemma consume_eq:
  "consume P (l, r, g) = (case r of [] \<Rightarrow> [] | c # r' \<Rightarrow> if P c then [(c # l, r', g)] else [])"
  by (cases r) auto

lemma run_yearRegex:
  "run False yearRegex (l, r, g) =
     (case yearAt r of None \<Rightarrow> [] | Some y \<Rightarrow> [(rev y @ l, drop 4 r, Some y)])"
proof -
  have four: "(4::nat) = Suc (Suc (Suc (Suc 0)))" by simp
  show ?thesis
  proof (cases r)
    case Nil
    then show ?thesis by (simp add: yearRegex_def digitC_def four)
  next
    case r1: (Cons a r1)
    show ?thesis
    proof (cases r1)
      case Nil
      with r1 show ?thesis by (simp add: yearRegex_def digitC_def four)
    next
      case r2: (Cons b r2)
      show ?thesis
      proof (cases r2)
        case Nil
        with r1 r2 show ?thesis by (simp add: yearRegex_def digitC_def four)
      next
        case r3: (Cons c r3)
        show ?thesis
        proof (cases r3)
          case Nil
          with r1 r2 r3 show ?thesis by (simp add: yearRegex_def digitC_def four)
        next
          case (Cons d r4)
          with r1 r2 r3 show ?thesis
            by (simp add: yearRegex_def digitC_def four setGroup_def)
        qed
      qed
    qed
  qed
qed

lemma matchFirst_yearRegex_group:
  "(case execFrom (run False yearRegex) l r of None \<Rightarrow> None | Some (st, en) \<Rightarrow> Some (snd (snd en)))
     = map_option Some (firstYearRun r)"
proof (induction r arbitrary: l)
  case Nil
  then show ?case by (simp add: run_yearRegex)
next
  case (Cons c cs)
  show ?case
  proof (cases "yearAt (c # cs)")
    case None
    then show ?thesis using Cons.IH by (simp add: run_yearRegex)
  next
    case (Some y)
    then show ?thesis by (simp add: run_yearRegex)
  qed
qed

lemma yearAt_digits: "yearAt r = Some y \<Longrightarrow> (\<forall>c \<in> set y. isDigit c) \<and> length y = 4"
  by (cases r rule: yearAt.cases) (auto split: if_splits)

lemma firstYearRun_digits: "firstYearRun r = Some y \<Longrightarrow> (\<forall>c \<in> set y. isDigit c) \<and> length y = 4"
  by (induction r) (auto split: option.splits dest: yearAt_digits)

lemma isValidDate_plausibleYear: "isValidDate currentYear d = plausibleYear currentYear d"
proof -
  have g: "(case execFrom (run False yearRegex) [] d of None \<Rightarrow> None | Some (st, en) \<Rightarrow> Some (snd (snd en)))
     = map_option Some (firstYearRun d)"
    by (rule matchFirst_yearRegex_group)
  show ?thesis
  proof (cases "firstYearRun d")
    case None
    with g show ?thesis
      by (auto simp: isValidDate_def plausibleYear_def matchFirst_def split: option.splits)
  next
    case (Some y)
    then have tw: "takeWhile isDigit y = y"
      using firstYearRun_digits by (simp add: takeWhile_eq_all_conv)
    from g Some show ?thesis
      by (auto simp: isValidDate_def plausibleYear_def matchFirst_def parseInt_def Let_def tw
          split: option.splits)
  qed
qed

lemma run_badYearRegex:
  "run False badYearRegex (l, r, g) =
     (if badYearAt r then [(rev (take 4 r) @ l, drop 4 r, g)] else [])"
proof (cases r)
  case Nil
  then show ?thesis by (simp add: badYearRegex_def seqs_def Str_def)
next
  case r1: (Cons a r1)
  show ?thesis
  proof (cases r1)
    case Nil
    with r1 show ?thesis by (simp add: badYearRegex_def seqs_def Str_def)
  next
    case r2: (Cons b r2)
    show ?thesis
    proof (cases r2)
      case Nil
      with r1 r2 show ?thesis by (simp add: badYearRegex_def seqs_def Str_def)
    next
      case r3: (Cons c r3)
      show ?thesis
      proof (cases r3)
        case Nil
        with r1 r2 r3 show ?thesis by (simp add: badYearRegex_def seqs_def Str_def)
      next
        case (Cons d r4)
        with r1 r2 r3 show ?thesis
          by (simp add: badYearRegex_def seqs_def Str_def)
      qed
    qed
  qed
qed

lemma replace_badYear_from:
  "(case execFrom (run False badYearRegex) l r of
      None \<Rightarrow> rev l @ r
    | Some (st, en) \<Rightarrow> rev (fst st) @ repl @ fst (snd en))
   = rev l @ replaceBadYear repl r"
proof (induction r arbitrary: l)
  case Nil
  then show ?case by (simp add: run_badYearRegex)
next
  case (Cons c cs)
  show ?case
  proof (cases "badYearAt (c # cs)")
    case True
    then show ?thesis by (simp add: run_badYearRegex)
  next
    case False
    then show ?thesis using Cons.IH [of "c # l"]
      by (auto simp: run_badYearRegex split: option.splits prod.splits)
  qed
qed

lemma replaceFirstMatch_badYear:
  "replaceFirstMatch False badYearRegex repl s = replaceBadYear repl s"
  using replace_badYear_from [of "[]" s repl]
  by (auto simp: replaceFirstMatch_def split: option.splits prod.splits)

lemma setGroup_remaining: "remaining (setGroup s e) = remaining e"
  by (simp add: setGroup_def remaining_def)

lemma seqs_Cons: "seqs (r # rs) = Seq r (seqs rs)"
  by (simp add: seqs_def)

lemma run_Seq_elim:
  "e \<in> set (run ic (Seq a b) s) \<Longrightarrow> \<exists>m. m \<in> set (run ic a s) \<and> e \<in> set (run ic b m)"
  by auto

lemma run_Grp_elim:
  "e \<in> set (run ic (Grp a) s) \<Longrightarrow> \<exists>e'. e' \<in> set (run ic a s) \<and> e = setGroup s e'"
  by auto

lemma run_Cls_progress:
  "e \<in> set (run ic (Cls neg P) s) \<Longrightarrow> remaining e < remaining s"
  using consume_advances by simp

lemma run_dateRegex_progress:
  assumes "e \<in> set (run False dateRegex s)"
  shows "advances s e \<and> remaining e < remaining s"
proof -
  have adv: "advances s e" using assms by (rule run_advances)
  from assms obtain e' where e': "e = setGroup s e'"
    "e' \<in> set (run False (Seq (Rep 1 4 digitC) (Seq dateSepC
              (seqs [Rep 1 2 digitC, dateSepC, Rep 2 4 digitC]))) s)"
    unfolding dateRegex_def seqs_Cons using run_Grp_elim by blast
  from e'(2) obtain m1 where m1: "m1 \<in> set (run False (Rep 1 4 digitC) s)"
    "e' \<in> set (run False (Seq dateSepC (seqs [Rep 1 2 digitC, dateSepC, Rep 2 4 digitC])) m1)"
    using run_Seq_elim by blast
  from m1(2) obtain m2 where m2: "m2 \<in> set (run False dateSepC m1)"
    "e' \<in> set (run False (seqs [Rep 1 2 digitC, dateSepC, Rep 2 4 digitC]) m2)"
    using run_Seq_elim by blast
  have "remaining m1 \<le> remaining s"
    using run_advances [OF m1(1)] by (rule advances_remaining)
  moreover have "remaining m2 < remaining m1"
    using m2(1) unfolding dateSepC_def by (rule run_Cls_progress)
  moreover have "remaining e' \<le> remaining m2"
    using run_advances [OF m2(2)] by (rule advances_remaining)
  ultimately show ?thesis using adv e'(1) by (simp add: setGroup_remaining)
qed

lemma matchedText_advances:
  assumes "advances s e" "remaining e < remaining s"
  shows "matchedText s e \<noteq> []"
proof -
  from assms(1) obtain w where w: "fst e = rev w @ fst s" "fst (snd s) = w @ fst (snd e)"
    by (auto simp: advances_def)
  with assms(2) have "w \<noteq> []" by (auto simp: remaining_def)
  moreover have "matchedText s e = w" using w(1) by (simp add: matchedText_def)
  ultimately show ?thesis by simp
qed

lemma matchAllFrom_nonempty:
  "(\<And>s e. e \<in> set (m s) \<Longrightarrow> advances s e \<and> remaining e < remaining s) \<Longrightarrow>
   x \<in> set (matchAllFrom m l r) \<Longrightarrow> x \<noteq> []"
proof (induction m l r rule: matchAllFrom.induct)
  case (1 m l r)
  show ?case
  proof (cases "m (l, r, None)")
    case Nil
    show ?thesis
    proof (cases r)
      case Nil
      with \<open>m (l, r, None) = []\<close> "1.prems"(2) show ?thesis
        by (subst (asm) matchAllFrom.simps) simp
    next
      case (Cons c r')
      with \<open>m (l, r, None) = []\<close> "1.prems"(2) have "x \<in> set (matchAllFrom m (c # l) r')"
        by (subst (asm) matchAllFrom.simps) simp
      then show ?thesis
        using "1.IH"(1) [OF \<open>m (l, r, None) = []\<close> Cons "1.prems"(1)] by simp
    qed
  next
    case (Cons e es)
    then have prog: "advances (l, r, None) e \<and> remaining e < remaining (l, r, None)"
      using "1.prems"(1) [of e "(l, r, None)"] by simp
    then have lt: "remaining e < length r" by (simp add: remaining_def)
    from Cons lt "1.prems"(2)
    have "x = matchedText (l, r, None) e \<or> x \<in> set (matchAllFrom m (fst e) (fst (snd e)))"
      by (subst (asm) matchAllFrom.simps) simp
    then show ?thesis
    proof
      assume "x = matchedText (l, r, None) e"
      then show ?thesis using matchedText_advances [of "(l, r, None)" e] prog by simp
    next
      assume "x \<in> set (matchAllFrom m (fst e) (fst (snd e)))"
      then show ?thesis
        using "1.IH"(2) [OF Cons lt "1.prems"(1)] by simp
    qed
  qed
qed

lemma dateCandidates_nonempty:
  assumes "x \<in> set (matchAll False dateRegex t)"
  shows "x \<noteq> []"
proof (rule matchAllFrom_nonempty)
  show "x \<in> set (matchAllFrom (run False dateRegex) [] t)"
    using assms by (simp add: matchAll_def)
  show "advances s e \<and> remaining e < remaining s" if "e \<in> set (run False dateRegex s)" for s e
    using that by (rule run_dateRegex_progress)
qed

section \<open>The fields of the record\<close>

lemma vendorLoop_other:
  "rawText (vendorLoop ls d) = rawText d"
  "date (vendorLoop ls d) = date d"
  "invoiceNumber (vendorLoop ls d) = invoiceNumber d"
  "amount (vendorLoop ls d) = amount d"
  "subtotalAmount (vendorLoop ls d) = subtotalAmount d"
  "taxAmount (vendorLoop ls d) = taxAmount d"
  by (induction ls) auto

lemma vendorLoop_vendor:
  "vendorName (vendorLoop ls d) =
     (case find vendorCandidate ls of None \<Rightarrow> vendorName d | Some l \<Rightarrow> Some l)"
  by (induction ls) auto

lemma dateLoop_other:
  "rawText (dateLoop y cs d) = rawText d"
  "vendorName (dateLoop y cs d) = vendorName d"
  "invoiceNumber (dateLoop y cs d) = invoiceNumber d"
  "amount (dateLoop y cs d) = amount d"
  "subtotalAmount (dateLoop y cs d) = subtotalAmount d"
  "taxAmount (dateLoop y cs d) = taxAmount d"
  by (induction cs) auto

lemma dateLoop_date:
  "date (dateLoop y cs d) =
     (case find (isValidDate y) cs of None \<Rightarrow> date d | Some c \<Rightarrow> Some c)"
  by (induction cs) auto

lemma dateFallback_other:
  "rawText (dateFallback y cs d) = rawText d"
  "vendorName (dateFallback y cs d) = vendorName d"
  "invoiceNumber (dateFallback y cs d) = invoiceNumber d"
  "amount (dateFallback y cs d) = amount d"
  "subtotalAmount (dateFallback y cs d) = subtotalAmount d"
  "taxAmount (dateFallback y cs d) = taxAmount d"
  by (auto simp: dateFallback_def split: list.splits)

lemma dateFallback_date:
  "date (dateFallback y cs d) =
     (if falsyString (date d)
      then (case cs of
              [] \<Rightarrow> date d
            | b # _ \<Rightarrow> if b \<noteq> [] then Some (replaceBadYear (natToString y) b) else date d)
      else date d)"
  by (auto simp: dateFallback_def replaceFirstMatch_badYear split: list.splits)

lemma invoiceStep_other:
  "rawText (invoiceStep d) = rawText d"
  "vendorName (invoiceStep d) = vendorName d"
  "date (invoiceStep d) = date d"
  "amount (invoiceStep d) = amount d"
  "subtotalAmount (invoiceStep d) = subtotalAmount d"
  "taxAmount (invoiceStep d) = taxAmount d"
  by (auto simp: invoiceStep_def split: option.splits)

lemma taxStep_other:
  "rawText (taxStep d) = rawText d"
  "vendorName (taxStep d) = vendorName d"
  "date (taxStep d) = date d"
  "invoiceNumber (taxStep d) = invoiceNumber d"
  "amount (taxStep d) = amount d"
  "subtotalAmount (taxStep d) = subtotalAmount d"
  by (auto simp: taxStep_def split: option.splits)

lemma subtotalStep_other:
  "rawText (subtotalStep d) = rawText d"
  "vendorName (subtotalStep d) = vendorName d"
  "date (subtotalStep d) = date d"
  "invoiceNumber (subtotalStep d) = invoiceNumber d"
  "amount (subtotalStep d) = amount d"
  "taxAmount (subtotalStep d) = taxAmount d"
  by (auto simp: subtotalStep_def split: option.splits)

lemma totalStep_other:
  "rawText (totalStep d) = rawText d"
  "vendorName (totalStep d) = vendorName d"
  "date (totalStep d) = date d"
  "invoiceNumber (totalStep d) = invoiceNumber d"
  "subtotalAmount (totalStep d) = subtotalAmount d"
  "taxAmount (totalStep d) = taxAmount d"
  by (auto simp: totalStep_def split: option.splits)

lemma fallbackStep_other:
  "rawText (fallbackStep d) = rawText d"
  "vendorName (fallbackStep d) = vendorName d"
  "date (fallbackStep d) = date d"
  "invoiceNumber (fallbackStep d) = invoiceNumber d"
  "subtotalAmount (fallbackStep d) = subtotalAmount d"
  "taxAmount (fallbackStep d) = taxAmount d"
  by (auto simp: fallbackStep_def split: list.splits)

lemmas step_other =
  vendorLoop_other dateLoop_other dateFallback_other invoiceStep_other taxStep_other
  subtotalStep_other totalStep_other fallbackStep_other

lemmas parse_unfold = parse_def keywordFields_def Let_def initialData_def

lemma parse_rawText: "rawText (parse y t) = t"
  by (simp add: parse_unfold step_other)

lemma parse_vendorName:
  "vendorName (parse y t) = find vendorCandidate (cleanLines t)"
  by (simp add: parse_unfold step_other vendorLoop_vendor split: option.splits)

lemma parse_invoiceNumber:
  "invoiceNumber (parse y t) = map_option group1 (matchFirst True invoiceRegex t)"
  by (simp add: parse_unfold step_other invoiceStep_def split: option.splits)

lemma parse_taxAmount:
  "taxAmount (parse y t) =
     (case matchFirst True taxRegex t of None \<Rightarrow> None | Some m \<Rightarrow> parsePrice (group1 m))"
  by (simp add: parse_unfold step_other taxStep_def split: option.splits)

lemma parse_subtotalAmount:
  "subtotalAmount (parse y t) =
     (case matchFirst True subtotalRegex t of None \<Rightarrow> None | Some m \<Rightarrow> parsePrice (group1 m))"
  by (simp add: parse_unfold step_other subtotalStep_def split: option.splits)

lemma keywordFields_amount:
  "amount (keywordFields y t) =
     (case matchFirst True totalRegex t of None \<Rightarrow> None | Some m \<Rightarrow> parsePrice (group1 m))"
  by (simp add: parse_unfold step_other totalStep_def split: option.splits)

lemma keywordFields_rawText: "rawText (keywordFields y t) = t"
  by (simp add: parse_unfold step_other)

lemma parse_amount:
  "amount (parse y t) =
     (if falsyNumber (amount (keywordFields y t))
      then (case positivePrices (matchAll False fallbackRegex t) of
              [] \<Rightarrow> amount (keywordFields y t)
            | x # xs \<Rightarrow> Some (maxOf x xs))
      else amount (keywordFields y t))"
  by (simp add: parse_def fallbackStep_def keywordFields_rawText split: list.splits)

lemma parse_date:
  "date (parse y t) =
     (let candidates = matchAll False dateRegex t
      in case find (plausibleYear y) candidates of
           Some d \<Rightarrow> Some d
         | None \<Rightarrow>
             (case candidates of
                [] \<Rightarrow> None
              | first # _ \<Rightarrow> Some (replaceBadYear (natToString y) first)))"
proof -
  define cs where "cs = matchAll False dateRegex t"
  define d1 where "d1 = vendorLoop (cleanLines t) (initialData t)"
  define found where "found = find (plausibleYear y) cs"
  have valid: "isValidDate y = plausibleYear y"
    by (rule ext) (rule isValidDate_plausibleYear)
  have d2: "date (dateLoop y cs d1) = found"
    by (simp add: dateLoop_date step_other initialData_def valid d1_def found_def
        split: option.splits)
  have "date (parse y t) = date (dateFallback y cs (dateLoop y cs d1))"
    by (simp add: parse_def keywordFields_def Let_def step_other cs_def d1_def)
  also have "\<dots> = (if falsyString found
      then (case cs of
              [] \<Rightarrow> found
            | b # _ \<Rightarrow> if b \<noteq> [] then Some (replaceBadYear (natToString y) b) else found)
      else found)"
    unfolding dateFallback_date d2 by (rule refl)
  also have "\<dots> = (case found of
           Some d \<Rightarrow> Some d
         | None \<Rightarrow>
             (case cs of
                [] \<Rightarrow> None
              | first # _ \<Rightarrow> Some (replaceBadYear (natToString y) first)))"
  proof (cases found)
    case None
    show ?thesis
    proof (cases cs)
      case Nil
      with None show ?thesis by (simp add: falsyString_def)
    next
      case (Cons b bs)
      then have "b \<in> set (matchAll False dateRegex t)" by (simp add: cs_def)
      then have "b \<noteq> []" by (rule dateCandidates_nonempty)
      with Cons None show ?thesis by (simp add: falsyString_def)
    qed
  next
    case (Some d)
    then have "plausibleYear y d" by (auto simp: found_def find_Some_iff)
    then have "d \<noteq> []" by (auto simp: plausibleYear_def)
    with Some show ?thesis by (simp add: falsyString_def)
  qed
  finally show ?thesis unfolding Let_def cs_def found_def .
qed

lemma positivePrices_positive: "v \<in> set (positivePrices ps) \<Longrightarrow> 0 < v"
  by (induction ps) (auto split: option.splits if_splits)

lemma maxOf_ge: "x \<le> maxOf x xs"
proof -
  have "a \<le> foldl max a xs" for a :: rat
    by (induction xs arbitrary: a) (auto intro: order_trans [OF max.cobounded1])
  then show ?thesis by (simp add: maxOf_def)
qed

lemma fallback_positive:
  "positivePrices ps = x # xs \<Longrightarrow> 0 < maxOf x xs"
proof -
  assume "positivePrices ps = x # xs"
  then have "x \<in> set (positivePrices ps)" by simp
  then have "0 < x" by (rule positivePrices_positive)
  with maxOf_ge [of x xs] show ?thesis by simp
qed

section \<open>Direct readings of the expressions\<close>

lemma startsWithCI_False: "startsWithCI False r w = startsWith r w"
  by (induction r w rule: startsWith.induct) auto

lemma startsWith_iff: "startsWith s w = (\<exists>q. s = w @ q)"
  by (induction s w rule: startsWith.induct) auto

lemma includesStr_iff: "includesStr s w = (\<exists>p q. s = p @ w @ q)"
proof (induction s)
  case Nil
  then show ?case by auto
next
  case (Cons c cs)
  have "(\<exists>p q. c # cs = p @ w @ q) = ((\<exists>q. c # cs = w @ q) \<or> (\<exists>p q. cs = p @ w @ q))"
  proof
    assume "\<exists>p q. c # cs = p @ w @ q"
    then obtain p q where pq: "c # cs = p @ w @ q" by blast
    show "(\<exists>q. c # cs = w @ q) \<or> (\<exists>p q. cs = p @ w @ q)"
    proof (cases p)
      case Nil
      with pq show ?thesis by auto
    next
      case (Cons a p')
      with pq have "cs = p' @ w @ q" by simp
      then show ?thesis by blast
    qed
  next
    assume "(\<exists>q. c # cs = w @ q) \<or> (\<exists>p q. cs = p @ w @ q)"
    then show "\<exists>p q. c # cs = p @ w @ q"
    proof
      assume "\<exists>q. c # cs = w @ q"
      then obtain q where "c # cs = [] @ w @ q" by auto
      then show ?thesis by blast
    next
      assume "\<exists>p q. cs = p @ w @ q"
      then obtain p q where "c # cs = (c # p) @ w @ q" by auto
      then show ?thesis by blast
    qed
  qed
  with Cons show ?case by (simp add: startsWith_iff)
qed

lemma run_Str:
  "run ic (Str w) (l, r, g) =
     (if startsWithCI ic r w then [(rev (take (length w) r) @ l, drop (length w) r, g)] else [])"
proof (induction w arbitrary: l r)
  case Nil
  then show ?case by (simp add: Str_def)
next
  case (Cons a w)
  have str: "Str (a # w) = Seq (Chr a) (Str w)" by (simp add: Str_def)
  show ?case
  proof (cases r)
    case Nil
    then show ?thesis by (simp add: str)
  next
    case (Cons c r')
    then show ?thesis using Cons.IH [of "c # l" r'] by (simp add: str)
  qed
qed

lemma execFrom_Bol:
  "l \<noteq> [] \<Longrightarrow> execFrom (run ic (Seq Bol x)) l r = None"
  by (induction r arbitrary: l) auto

lemma run_Bol_start: "run ic (Seq Bol x) ([], r, g) = run ic x ([], r, g)"
  by simp

lemma execFrom_Bol_start:
  "(execFrom (run ic (Seq Bol x)) [] r = None) = (run ic x ([], r, None) = [])"
proof (cases r)
  case Nil
  show ?thesis
    unfolding Nil execFrom.simps run_Bol_start by (simp split: list.splits)
next
  case (Cons c r')
  have "execFrom (run ic (Seq Bol x)) [c] r' = None"
    by (rule execFrom_Bol) simp
  then show ?thesis
    unfolding Cons execFrom.simps run_Bol_start by (simp split: list.splits)
qed

lemma regexTest_alnum: "regexTest False alnumRegex line = (\<exists>c \<in> set line. isAlnum c)"
proof -
  have "(execFrom (run False alnumRegex) l r \<noteq> None) = (\<exists>c \<in> set r. isAlnum c)" for l r
    by (induction r arbitrary: l) (auto simp: alnumRegex_def split: list.splits)
  from this [of "[]" line] show ?thesis
    by (cases "execFrom (run False alnumRegex) [] line")
       (auto simp: regexTest_def matchFirst_def)
qed

lemma seqs_Nil: "seqs [] = Eps"
  by (simp add: seqs_def)

lemma run_street_tail:
  "(run False (Seq (Opt (Chr (CHR ''.''))) (Seq spaceC Eps)) (l, r, g) = [])
     = (\<not> afterStreetAbbr r)"
proof (cases r)
  case Nil
  then show ?thesis by (simp add: spaceC_def remaining_def)
next
  case r1: (Cons c r1)
  show ?thesis
  proof (cases r1)
    case Nil
    with r1 show ?thesis
      by (auto simp: spaceC_def remaining_def isSpace_def code_def)
  next
    case (Cons d r2)
    with r1 show ?thesis
      by (auto simp: spaceC_def remaining_def isSpace_def code_def)
  qed
qed

lemma run_street_abbr:
  "(concat (map (run False (Seq (Opt (Chr (CHR ''.''))) (Seq spaceC Eps)))
        (map (setGroup s) (run False (Str w) ([], u, None)))) = [])
     = (\<not> (startsWith u w \<and> afterStreetAbbr (drop (length w) u)))"
  by (simp add: run_Str startsWithCI_False setGroup_def run_street_tail del: run.simps)

lemma streetRegex_streetPrefixed:
  "(matchFirst False streetRegex u = None) = (\<not> streetPrefixed u)"
proof -
  let ?tail = "Seq (Opt (Chr (CHR ''.''))) (Seq spaceC Eps)"
  let ?s = "([], u, None) :: mstate"
  have "(matchFirst False streetRegex u = None)
          = (execFrom (run False streetRegex) [] u = None)"
    by (simp add: matchFirst_def split: option.splits)
  also have "\<dots> = (run False (Seq (Grp (alts [Str ''CALLE'', Str ''AV'', Str ''JR''])) ?tail) ?s = [])"
    unfolding streetRegex_def seqs_Cons seqs_Nil execFrom_Bol_start by (rule refl)
  also have "\<dots> = (concat (map (run False ?tail) (map (setGroup ?s) (run False (Str ''CALLE'') ?s))) = []
       \<and> concat (map (run False ?tail) (map (setGroup ?s) (run False (Str ''AV'') ?s))) = []
       \<and> concat (map (run False ?tail) (map (setGroup ?s) (run False (Str ''JR'') ?s))) = [])"
    by (simp del: run.simps(3) add: run.simps(3) [of False "Grp x" for x])
  also have "\<dots> = (\<not> streetPrefixed u)"
    unfolding run_street_abbr by (simp add: streetPrefixed_def)
  finally show ?thesis .
qed

lemma firstGroup_append:
  "firstGroup (xs @ ys) = (case firstGroup xs of Some t \<Rightarrow> Some t | None \<Rightarrow> firstGroup ys)"
  by (cases xs) (auto simp: firstGroup_def)

lemma firstGroup_Nil: "firstGroup [] = None"
  by (simp add: firstGroup_def)

lemma firstGroup_None: "(firstGroup es = None) = (es = [])"
  by (cases es) (auto simp: firstGroup_def)

lemma firstGroup_concat:
  "firstGroup (concat (map f xs)) = firstSome (\<lambda>x. firstGroup (f x)) xs"
  by (induction xs) (auto simp: firstGroup_append firstGroup_Nil split: option.splits)

lemma starM_consume_Nil: "starM (consume P) (l, [], g) = [(l, [], g)]"
  by (subst starM.simps) simp

lemma starM_consume_Cons:
  "starM (consume P) (l, c # r, g) =
     (if P c then starM (consume P) (c # l, r, g) @ [(l, c # r, g)] else [(l, c # r, g)])"
  by (subst starM.simps) (simp add: remaining_def)

lemma starM_consume_head:
  "\<exists>rest. starM (consume P) (l, r, g) = (rev (takeWhile P r) @ l, dropWhile P r, g) # rest"
proof (induction r arbitrary: l)
  case Nil
  then show ?case by (simp add: starM_consume_Nil)
next
  case (Cons c r)
  show ?case
  proof (cases "P c")
    case True
    from Cons [of "c # l"] obtain rest where
      "starM (consume P) (c # l, r, g) = (rev (takeWhile P r) @ c # l, dropWhile P r, g) # rest"
      by blast
    with True show ?thesis by (simp add: starM_consume_Cons)
  next
    case False
    then show ?thesis by (simp add: starM_consume_Cons)
  qed
qed

text \<open>
  A star over a character class followed by a matcher \<open>m\<close>: when, on a text that starts
  with a character of the class, \<open>m\<close> either fails or finds what it finds after the whole
  run of such characters, the first result is that of \<open>m\<close> after the run.
\<close>
lemma star_then_first:
  assumes "\<And>l c r. P c \<Longrightarrow>
      firstGroup (m (l, c # r, g)) = None
      \<or> firstGroup (m (l, c # r, g))
          = firstGroup (m (rev (takeWhile P (c # r)) @ l, dropWhile P (c # r), g))"
  shows "firstGroup (concat (map m (starM (consume P) (l, r, g))))
           = firstGroup (m (rev (takeWhile P r) @ l, dropWhile P r, g))"
proof (induction r arbitrary: l)
  case Nil
  then show ?case by (simp add: starM_consume_Nil)
next
  case (Cons c r)
  show ?case
  proof (cases "P c")
    case True
    have ih: "firstGroup (concat (map m (starM (consume P) (c # l, r, g))))
           = firstGroup (m (rev (takeWhile P r) @ c # l, dropWhile P r, g))"
      using Cons [of "c # l"] .
    from assms [OF True, of l r] True
    have "firstGroup (m (l, c # r, g)) = None
      \<or> firstGroup (m (l, c # r, g))
          = firstGroup (m (rev (takeWhile P r) @ c # l, dropWhile P r, g))"
      by simp
    with True ih show ?thesis
      by (auto simp: starM_consume_Cons firstGroup_append split: option.splits)
  next
    case False
    then show ?thesis by (simp add: starM_consume_Cons)
  qed
qed

lemma isSpace_swapCase: "isSpace (swapCase c) = isSpace c"
proof (cases c)
  case (Char b0 b1 b2 b3 b4 b5 b6 b7)
  show ?thesis
    unfolding Char swapCase_code
    by (cases b0; cases b1; cases b2; cases b3; cases b4; cases b5; cases b6; cases b7;
        simp add: isSpace_code letterBits_def latinBits_def)
qed

lemma isInvoiceSep_code:
  "isInvoiceSep (Char b0 b1 b2 b3 b4 b5 b6 b7) =
     (\<not> b7 \<and> \<not> b6 \<and> b5 \<and>
        ((\<not> b0 \<and> b1 \<and> \<not> b2 \<and> b3 \<and> b4) \<or> (b0 \<and> b1 \<and> \<not> b2 \<and> \<not> b3 \<and> \<not> b4)
          \<or> (\<not> b0 \<and> b1 \<and> b2 \<and> b3 \<and> \<not> b4)))"
  by (cases b0; cases b1; cases b2; cases b3; cases b4; cases b5; cases b6; cases b7;
      simp add: isInvoiceSep_def)

lemma isInvoiceSep_swapCase: "isInvoiceSep (swapCase c) = isInvoiceSep c"
proof (cases c)
  case (Char b0 b1 b2 b3 b4 b5 b6 b7)
  show ?thesis
    unfolding Char swapCase_code
    by (cases b0; cases b1; cases b2; cases b3; cases b4; cases b5; cases b6; cases b7;
        simp add: isInvoiceSep_code letterBits_def latinBits_def)
qed

lemma isTokenChar_swapCase: "(isTokenChar c \<or> isTokenChar (swapCase c)) = isTokenCharCI c"
proof (cases c)
  case (Char b0 b1 b2 b3 b4 b5 b6 b7)
  show ?thesis
    unfolding Char swapCase_code isTokenChar_def isTokenCharCI_def
    by (cases b0; cases b1; cases b2; cases b3; cases b4; cases b5; cases b6; cases b7;
        simp add: isUpperAZ_code isLowerAZ_code isDigit_code letterBits_def latinBits_def)
qed

lemma space_not_token: "isSpace c \<Longrightarrow> \<not> isTokenCharCI c"
proof (cases c)
  case (Char b0 b1 b2 b3 b4 b5 b6 b7)
  assume "isSpace c"
  then show ?thesis
    unfolding Char isTokenCharCI_def
    by (cases b0; cases b1; cases b2; cases b3; cases b4; cases b5; cases b6; cases b7;
        simp add: isSpace_code isUpperAZ_code isLowerAZ_code isDigit_code letterBits_def)
qed

lemma sep_not_token: "isInvoiceSep c \<Longrightarrow> \<not> isTokenCharCI c"
  by (auto simp: isInvoiceSep_def isTokenCharCI_def isUpperAZ_def isLowerAZ_def isDigit_def code_def)

lemma sep_not_space': "isInvoiceSep c \<Longrightarrow> \<not> isSpace c"
  by (auto simp: isInvoiceSep_def isSpace_def code_def)

lemma run_spaceC: "run True spaceC = consume isSpace"
  by (simp add: spaceC_def isSpace_swapCase)

lemma run_invoiceSep: "run True (Cls False isInvoiceSep) = consume isInvoiceSep"
  by (simp add: isInvoiceSep_swapCase)

lemma run_tokenC: "run True (Cls False isTokenChar) = consume isTokenCharCI"
  using isTokenChar_swapCase by simp

lemma invoiceRegex_split: "invoiceRegex = Seq (alts (map Str invoiceKeywords)) afterKeyword"
  by (simp add: invoiceRegex_def seqs_def afterKeyword_def sepSpacesToken_def spacesToken_def
      tokenGroup_def)

lemma tokenOf_Nil: "tokenOf [] = None"
  by (simp add: tokenOf_def)

lemma tokenOf_Cons:
  "tokenOf (c # r) = (if isTokenCharCI c then Some (c # takeWhile isTokenCharCI r) else None)"
  by (simp add: tokenOf_def)

lemma first_tokenGroup: "firstGroup (run True tokenGroup (l, r, g)) = tokenOf r"
proof (cases r)
  case Nil
  then show ?thesis
    by (simp add: tokenGroup_def Plus_def run_tokenC firstGroup_def tokenOf_Nil del: run.simps(2))
next
  case (Cons c r')
  show ?thesis
  proof (cases "isTokenCharCI c")
    case False
    with Cons show ?thesis
      by (simp add: tokenGroup_def Plus_def run_tokenC firstGroup_def tokenOf_Cons
          del: run.simps(2))
  next
    case True
    from starM_consume_head [of isTokenCharCI "c # l" r' g] obtain rest where
      st: "starM (consume isTokenCharCI) (c # l, r', g)
            = (rev (takeWhile isTokenCharCI r') @ c # l, dropWhile isTokenCharCI r', g) # rest"
      by blast
    have "run True (Seq (Cls False isTokenChar) (Star (Cls False isTokenChar))) (l, c # r', g)
            = (rev (takeWhile isTokenCharCI r') @ c # l, dropWhile isTokenCharCI r', g) # rest"
      using True st by (simp add: run_tokenC del: run.simps(2))
    then show ?thesis
      unfolding Cons tokenGroup_def Plus_def
      by (simp add: firstGroup_def setGroup_def tokenOf_Cons True del: run.simps(2))
  qed
qed

lemma first_spacesToken:
  "firstGroup (run True spacesToken (l, r, g)) = tokenOf (dropWhile isSpace r)"
proof -
  have "firstGroup (run True spacesToken (l, r, g))
          = firstGroup (concat (map (run True tokenGroup) (starM (consume isSpace) (l, r, g))))"
    by (simp add: spacesToken_def run_spaceC)
  also have "\<dots> = firstGroup (run True tokenGroup
                      (rev (takeWhile isSpace r) @ l, dropWhile isSpace r, g))"
  proof (rule star_then_first)
    fix l c r
    assume "isSpace c"
    then have "tokenOf (c # r) = None" using space_not_token by (simp add: tokenOf_Cons)
    then show "firstGroup (run True tokenGroup (l, c # r, g)) = None
      \<or> firstGroup (run True tokenGroup (l, c # r, g))
          = firstGroup (run True tokenGroup
                (rev (takeWhile isSpace (c # r)) @ l, dropWhile isSpace (c # r), g))"
      by (simp add: first_tokenGroup)
  qed
  finally show ?thesis by (simp add: first_tokenGroup)
qed

lemma first_sepSpacesToken:
  "firstGroup (run True sepSpacesToken (l, r, g)) = sepThenToken r"
proof (cases r)
  case Nil
  then show ?thesis
    by (simp add: sepSpacesToken_def run_invoiceSep firstGroup_append first_spacesToken
        firstGroup_Nil sepThenToken_def tokenOf_Nil del: run.simps(2))
next
  case (Cons c r')
  show ?thesis
  proof (cases "isInvoiceSep c")
    case True
    then have "tokenOf (dropWhile isSpace (c # r')) = None"
      using sep_not_space' sep_not_token by (simp add: tokenOf_Cons)
    with True Cons show ?thesis
      by (simp add: sepSpacesToken_def run_invoiceSep firstGroup_append first_spacesToken
          firstGroup_Nil sepThenToken_def remaining_def del: run.simps(2) split: option.splits)
  next
    case False
    with Cons show ?thesis
      by (simp add: sepSpacesToken_def run_invoiceSep firstGroup_append first_spacesToken
          firstGroup_Nil sepThenToken_def remaining_def del: run.simps(2))
  qed
qed

lemma sepThenToken_space:
  assumes "isSpace c"
  shows "sepThenToken (c # r) = None
         \<or> sepThenToken (c # r) = sepThenToken (dropWhile isSpace (c # r))"
proof -
  have nosep: "\<not> isInvoiceSep c" using assms sep_not_space' by blast
  define x where "x = dropWhile isSpace (c # r)"
  have here: "sepThenToken (c # r) = tokenOf x"
    using nosep by (simp add: sepThenToken_def x_def)
  show ?thesis
  proof (cases x)
    case Nil
    then show ?thesis using here by (simp add: tokenOf_Nil)
  next
    case (Cons d x')
    have nsp: "\<not> isSpace d"
      using hd_dropWhile [of isSpace "c # r"] Cons x_def by (metis list.sel(1) list.simps(3))
    then have idem: "dropWhile isSpace x = x" using Cons by simp
    show ?thesis
    proof (cases "isInvoiceSep d")
      case True
      then have "tokenOf x = None" using Cons sep_not_token by (simp add: tokenOf_Cons)
      then show ?thesis using here by simp
    next
      case False
      then have "sepThenToken x = tokenOf x"
        using Cons idem by (simp add: sepThenToken_def)
      then show ?thesis using here x_def by simp
    qed
  qed
qed

lemma sepThenToken_invoiceTokenAfter:
  "sepThenToken (dropWhile isSpace r) = invoiceTokenAfter r"
proof (cases "dropWhile isSpace r")
  case Nil
  show ?thesis
    unfolding sepThenToken_def invoiceTokenAfter_def Let_def Nil by (simp add: tokenOf_Nil)
next
  case (Cons d x')
  have nsp: "\<not> isSpace d"
    using hd_dropWhile [of isSpace r] Cons by (metis list.sel(1) list.simps(3))
  show ?thesis
    unfolding sepThenToken_def invoiceTokenAfter_def Let_def Cons using nsp by simp
qed

lemma first_afterKeyword:
  "firstGroup (run True afterKeyword (l, r, g)) = invoiceTokenAfter r"
proof -
  have "firstGroup (run True afterKeyword (l, r, g))
          = firstGroup (concat (map (run True sepSpacesToken) (starM (consume isSpace) (l, r, g))))"
    by (simp add: afterKeyword_def run_spaceC)
  also have "\<dots> = firstGroup (run True sepSpacesToken
                      (rev (takeWhile isSpace r) @ l, dropWhile isSpace r, g))"
  proof (rule star_then_first)
    fix l c r
    assume "isSpace c"
    then show "firstGroup (run True sepSpacesToken (l, c # r, g)) = None
      \<or> firstGroup (run True sepSpacesToken (l, c # r, g))
          = firstGroup (run True sepSpacesToken
                (rev (takeWhile isSpace (c # r)) @ l, dropWhile isSpace (c # r), g))"
      unfolding first_sepSpacesToken by (rule sepThenToken_space)
  qed
  finally show ?thesis
    by (simp add: first_sepSpacesToken sepThenToken_invoiceTokenAfter)
qed

lemma consume_never: "consume (\<lambda>c. False) s = []"
  by (cases "(\<lambda>c::char. False, s)" rule: consume.cases) auto

lemma run_alts: "run ic (alts rs) s = concat (map (\<lambda>r. run ic r s) rs)"
  by (induction rs rule: alts.induct) (simp_all add: consume_never)

lemma firstSome_cong:
  "(\<And>x. x \<in> set xs \<Longrightarrow> f x = h x) \<Longrightarrow> firstSome f xs = firstSome h xs"
  by (induction xs) (auto split: option.splits)

lemma concat_map_concat_map:
  "concat (map f (concat (map h xs))) = concat (map (\<lambda>x. concat (map f (h x))) xs)"
  by (induction xs) auto

lemma first_invoiceRegex:
  "firstGroup (run True invoiceRegex (l, r, g)) = invoiceTokenAt r"
proof -
  let ?s = "(l, r, g)"
  have "run True invoiceRegex ?s
          = concat (map (run True afterKeyword)
              (concat (map (\<lambda>kw. run True (Str kw) ?s) invoiceKeywords)))"
    by (simp add: invoiceRegex_split run_alts comp_def)
  also have "\<dots> = concat (map (\<lambda>kw. concat (map (run True afterKeyword) (run True (Str kw) ?s)))
                        invoiceKeywords)"
    by (rule concat_map_concat_map)
  finally have "firstGroup (run True invoiceRegex ?s)
      = firstSome (\<lambda>kw. firstGroup (concat (map (run True afterKeyword) (run True (Str kw) ?s))))
          invoiceKeywords"
    by (simp add: firstGroup_concat)
  also have "\<dots> = firstSome (\<lambda>kw. if startsWithCI True r kw
                                     then invoiceTokenAfter (drop (length kw) r) else None)
                        invoiceKeywords"
    by (rule firstSome_cong) (simp add: run_Str first_afterKeyword firstGroup_Nil)
  finally show ?thesis by (simp add: invoiceTokenAt_def)
qed

lemma invoiceTokenAt_Nil: "invoiceTokenAt [] = None"
  by (simp add: invoiceTokenAt_def invoiceKeywords_def)

lemma execFrom_invoice:
  "(case execFrom (run True invoiceRegex) l r of
      None \<Rightarrow> None
    | Some (st, en) \<Rightarrow> Some (case snd (snd en) of None \<Rightarrow> [] | Some g \<Rightarrow> g))
   = firstInvoiceToken r"
proof (induction r arbitrary: l)
  case Nil
  have "firstGroup (run True invoiceRegex (l, [], None)) = None"
    by (simp add: first_invoiceRegex invoiceTokenAt_Nil)
  then have "run True invoiceRegex (l, [], None) = []" by (simp add: firstGroup_None)
  then show ?case by simp
next
  case (Cons c cs)
  show ?case
  proof (cases "run True invoiceRegex (l, c # cs, None)")
    case Nil
    then have "invoiceTokenAt (c # cs) = None"
      using first_invoiceRegex [of l "c # cs" None] by (simp add: firstGroup_Nil)
    with Nil Cons.IH [of "c # l"] show ?thesis by simp
  next
    case (Cons e es)
    then have "invoiceTokenAt (c # cs) = Some (case snd (snd e) of None \<Rightarrow> [] | Some g \<Rightarrow> g)"
      using first_invoiceRegex [of l "c # cs" None] by (simp add: firstGroup_def)
    with Cons show ?thesis by simp
  qed
qed

lemma matchFirst_invoice:
  "map_option group1 (matchFirst True invoiceRegex t) = firstInvoiceToken t"
  using execFrom_invoice [of "[]" t]
  by (auto simp: matchFirst_def group1_def split: option.splits)

lemma firstInvoiceToken_suffix:
  "invoiceTokenAt s \<noteq> None \<Longrightarrow> firstInvoiceToken (p @ s) \<noteq> None"
proof (induction p)
  case Nil
  then show ?case by (cases s) (auto simp: invoiceTokenAt_Nil split: option.splits)
next
  case (Cons a p)
  then show ?case by (auto split: option.splits)
qed

lemma invoiceTokenAt_example: "invoiceTokenAt (''Invoice: R-123'' @ q) \<noteq> None"
  by (simp add: invoiceTokenAt_def invoiceKeywords_def invoiceTokenAfter_def tokenOf_def
      swapCase_code isSpace_code isInvoiceSep_def isTokenCharCI_def isUpperAZ_code letterBits_def
      latinBits_def)

section \<open>The exception of the fallback\<close>

lemma parseE_parse:
  "parseE argLimit y t =
     (if falsyNumber (amount (keywordFields y t))
         \<and> length (positivePrices (matchAll False fallbackRegex t)) > argLimit
      then Inl RangeError else Inr (parse y t))"
  by (auto simp: parseE_def parse_def fallbackStepE_def fallbackStep_def mathMaxSpread_def
      keywordFields_rawText split: list.splits)

lemma starM_fail: "m s = [] \<Longrightarrow> starM m s = [s]"
  by (subst starM.simps) simp

lemma onesText_Suc: "onesText (Suc n) = CHR ''1'' # CHR '' '' # onesText n"
  by (simp add: onesText_def)

lemma onesText_0: "onesText 0 = []"
  by (simp add: onesText_def)

lemma isWordChar_one: "isWordChar (CHR ''1'')"
  by (simp add: isWordChar_def isAlnum_def isDigit_code)

lemma isWordChar_space: "\<not> isWordChar (CHR '' '')"
  by (simp add: isWordChar_def isAlnum_def isDigit_code isUpperAZ_code isLowerAZ_code)

lemma run_fallback_one:
  assumes "afterNonWord l"
  shows "run False fallbackRegex (l, CHR ''1'' # CHR '' '' # r, g)
           = [(CHR ''1'' # l, CHR '' '' # r, Some ''1'')]"
proof -
  have b0: "atWordBoundary (l, CHR ''1'' # CHR '' '' # r, g)"
    using assms isWordChar_one
    by (auto simp: atWordBoundary_def afterNonWord_def split: list.splits)
  have b1: "atWordBoundary (CHR ''1'' # l, CHR '' '' # r, g')" for g'
    using isWordChar_one isWordChar_space by (simp add: atWordBoundary_def)
  have three: "(3::nat) = Suc (Suc (Suc 0))" by simp
  have st: "starM (run False (Seq sepC (Rep 3 3 digitC))) (CHR ''1'' # l, CHR '' '' # r, g)
              = [(CHR ''1'' # l, CHR '' '' # r, g)]"
    by (rule starM_fail) (simp add: sepC_def isSep_def)
  show ?thesis
    using b0 b1 st
    by (simp add: fallbackRegex_def numberPattern_def seqs_def digitC_def sepC_def isSep_def
        isDigit_code three remaining_def setGroup_def Plus_def)
qed

lemma run_fallback_space:
  "run False fallbackRegex (l, CHR '' '' # r, g) = []"
proof -
  have three: "(3::nat) = Suc (Suc (Suc 0))" by simp
  show ?thesis
    by (simp add: fallbackRegex_def numberPattern_def seqs_def digitC_def isDigit_code three)
qed

lemma run_fallback_end:
  "afterNonWord l \<Longrightarrow> run False fallbackRegex (l, [], g) = []"
  by (auto simp: fallbackRegex_def seqs_def atWordBoundary_def afterNonWord_def
      split: list.splits)

lemma matchAll_onesText:
  "afterNonWord l \<Longrightarrow> matchAllFrom (run False fallbackRegex) l (onesText n) = replicate n ''1''"
proof (induction n arbitrary: l)
  case 0
  then show ?case
    by (subst matchAllFrom.simps) (simp add: onesText_0 run_fallback_end)
next
  case (Suc n)
  have nw: "afterNonWord (CHR '' '' # CHR ''1'' # l)"
    using isWordChar_space by (simp add: afterNonWord_def)
  have rest: "matchAllFrom (run False fallbackRegex) (CHR ''1'' # l) (CHR '' '' # onesText n)
                = replicate n ''1''"
    by (subst matchAllFrom.simps) (simp add: run_fallback_space Suc.IH [OF nw])
  show ?case
    unfolding onesText_Suc
    by (subst matchAllFrom.simps)
       (simp add: run_fallback_one [OF Suc.prems] matchedText_def remaining_def rest)
qed

lemma parsePrice_one: "parsePrice ''1'' = Some 1"
  by code_simp

lemma positivePrices_ones: "positivePrices (replicate n ''1'') = replicate n 1"
  by (induction n) (simp_all add: parsePrice_one)

lemma run_amountRegex_fail:
  assumes "\<And>kw. kw \<in> set keywords \<Longrightarrow> \<not> startsWithCI True r kw"
  shows "run True (amountRegex keywords) (l, r, g) = []"
proof -
  have "run True (alts (map Str keywords)) (l, r, g) = []"
    unfolding run_alts using assms by (simp add: run_Str comp_def)
  then show ?thesis
    by (simp add: amountRegex_def seqs_Cons del: run.simps(2,5,6))
qed

lemma run_totalRegex_ones:
  "run True totalRegex (l, CHR ''1'' # r, g) = []"
  "run True totalRegex (l, CHR '' '' # r, g) = []"
  "run True totalRegex (l, [], g) = []"
  unfolding totalRegex_def
  by (rule run_amountRegex_fail; auto simp: totalKeywords_def swapCase_code letterBits_def)+

lemma execFrom_totalRegex_ones:
  "execFrom (run True totalRegex) l (onesText n) = None"
proof (induction n arbitrary: l)
  case 0
  then show ?case by (simp add: onesText_0 run_totalRegex_ones)
next
  case (Suc n)
  then show ?case by (simp add: onesText_Suc run_totalRegex_ones)
qed

lemma keywordFields_amount_ones: "amount (keywordFields y (onesText n)) = None"
  by (simp add: keywordFields_amount matchFirst_def execFrom_totalRegex_ones)

lemma parse_empty:
  "parse y [] =
     \<lparr>rawText = [], vendorName = None, date = None, invoiceNumber = None,
      amount = None, subtotalAmount = None, taxAmount = None\<rparr>"
proof -
  have "vendorName (parse y []) = None"
    unfolding parse_vendorName by code_simp
  moreover have "date (parse y []) = None"
  proof -
    have "matchAll False dateRegex [] = []" by code_simp
    then show ?thesis unfolding parse_date by simp
  qed
  moreover have "invoiceNumber (parse y []) = None"
    unfolding parse_invoiceNumber by code_simp
  moreover have "taxAmount (parse y []) = None"
    unfolding parse_taxAmount by code_simp
  moreover have "subtotalAmount (parse y []) = None"
    unfolding parse_subtotalAmount by code_simp
  moreover have "amount (parse y []) = None"
  proof -
    have "amount (keywordFields y []) = None"
      unfolding keywordFields_amount by code_simp
    moreover have "positivePrices (matchAll False fallbackRegex []) = []" by code_simp
    ultimately show ?thesis unfolding parse_amount by (simp add: falsyNumber_def)
  qed
  ultimately show ?thesis
    using parse_rawText [of y "[]"] by (cases "parse y []") simp
qed

lemma splitOn_first_line:
  "sep \<notin> set a \<Longrightarrow> splitOn sep (a @ sep # rest) = a # splitOn sep rest"
  by (induction a) auto

lemma vendorCandidate_iff:
  "vendorCandidate line =
     ((\<forall>word \<in> set skipWords. \<not> includesStr (toUpperCase line) word)
      \<and> \<not> streetPrefixed (toUpperCase line) \<and> length line < 50)"
  by (auto simp: vendorCandidate_def Let_def list_ex_iff streetRegex_streetPrefixed)

lemma keepLine_iff: "keepLine line = (3 < length line \<and> (\<exists>c \<in> set line. isAlnum c))"
  by (simp add: keepLine_def regexTest_alnum)

section \<open>The claims\<close>

text \<open>
  C1. On the sample text of the specification, \<open>parse\<close> finds the vendor, the invoice
  number, the date and the subtotal the specification expects, but its tax amount is 10
  (the percentage in \<open>Tax (10%)\<close>) and its total is 80 (the \<open>total\<close> inside
  \<open>Subtotal\<close>), where the specification expects 8 and 88.
\<close>
theorem sample_receipt_fields:
  "parse 2026 sampleText =
     \<lparr>rawText = sampleText,
      vendorName = Some ''SUPERMARKET ABC'',
      date = Some ''2024-01-15'',
      invoiceNumber = Some ''INV-2024-001'',
      amount = Some 80,
      subtotalAmount = Some 80,
      taxAmount = Some 10\<rparr>"
  by code_simp

text \<open>
  C2. When the cleaned token contains one kind of separator only, the three-digit rule
  applies: if the segment after the last separator has length three, every separator is
  removed and the result is the whole number spelled by the digits; otherwise the
  separator is read as the decimal point.
\<close>
theorem parsePrice_three_digit_rule:
  assumes c: "c = cleanPrice t"
    and sep: "sep = CHR ''.'' \<or> sep = CHR '',''"
    and occurs: "sep \<in> set c"
    and only: "\<forall>x \<in> set c. isSep x \<longrightarrow> x = sep"
  shows "parsePrice t =
           parseFloat (if length (lastSegment sep c) = 3 then removeChar sep c
                       else replaceAllChar sep (CHR ''.'') c)
         \<and> (length (lastSegment sep c) = 3 \<longrightarrow>
              parsePrice t = Some (of_nat (digitsToNat (removeChar sep c))))"
proof -
  have ne: "cleanPrice t \<noteq> []" using occurs c by auto
  have alpha: "\<forall>x \<in> set c. isDigit x \<or> isSep x" using cleanPrice_alphabet c by simp
  have main: "parsePrice t =
           parseFloat (if length (lastSegment sep c) = 3 then removeChar sep c
                       else replaceAllChar sep (CHR ''.'') c)"
  proof (cases "sep = CHR '',''")
    case True
    then have "CHR ''.'' \<notin> set c" using only by (auto simp: isSep_def)
    with True occurs ne c show ?thesis
      by (simp add: parsePrice_def normalizeNum_def Let_def last_splitOn)
  next
    case False
    then have s: "sep = CHR ''.''" using sep by simp
    then have nc: "CHR '','' \<notin> set c" using only by (auto simp: isSep_def)
    then have "replaceAllChar (CHR '','') (CHR ''.'') c = c"
      unfolding replaceAllChar_def by (intro map_idI) auto
    moreover have "replaceAllChar (CHR ''.'') (CHR ''.'') c = c"
      unfolding replaceAllChar_def by (intro map_idI) auto
    ultimately show ?thesis using s nc occurs ne c
      by (simp add: parsePrice_def normalizeNum_def Let_def last_splitOn)
  qed
  have "parsePrice t = Some (of_nat (digitsToNat (removeChar sep c)))"
    if three: "length (lastSegment sep c) = 3"
  proof -
    have digits: "\<forall>x \<in> set (removeChar sep c). isDigit x"
      using alpha only by (auto simp: removeChar_def)
    have "isDigit (last c)" using cleanPrice_last_digit ne c by simp
    then have "last c \<noteq> sep" using sep by (auto simp: isDigit_def code_def)
    then have "last c \<in> set (removeChar sep c)"
      using ne c by (auto simp: removeChar_def)
    then have "removeChar sep c \<noteq> []" by auto
    then have "decimalValue (removeChar sep c) = Some (of_nat (digitsToNat (removeChar sep c)))"
      using digits by (rule decimalValue_digits)
    moreover have "parseFloat (removeChar sep c) = decimalValue (removeChar sep c)"
      using digits by (intro parseFloat_plain) auto
    ultimately show ?thesis using main three by simp
  qed
  with main show ?thesis by blast
qed

theorem parsePrice_three_digit_rule_witness:
  "parsePrice ''1.272'' = Some 1272 \<and> parsePrice ''50.00'' = Some 50
   \<and> parsePrice ''12,5'' = Some (25 / 2)"
proof -
  have dot: "CHR ''.'' = CHR ''.'' \<or> CHR ''.'' = CHR '',''" by simp
  have comma: "CHR '','' = CHR ''.'' \<or> CHR '','' = CHR '',''" by simp
  have a1: "CHR ''.'' \<in> set (cleanPrice ''1.272'')" by code_simp
  have a2: "\<forall>x \<in> set (cleanPrice ''1.272''). isSep x \<longrightarrow> x = CHR ''.''" by code_simp
  have a3: "length (lastSegment (CHR ''.'') (cleanPrice ''1.272'')) = 3" by code_simp
  have a4: "Some (of_nat (digitsToNat (removeChar (CHR ''.'') (cleanPrice ''1.272''))))
              = Some (1272 :: rat)" by code_simp
  have a: "parsePrice ''1.272'' = Some 1272"
  proof -
    from parsePrice_three_digit_rule [OF refl dot a1 a2] a3
    have "parsePrice ''1.272''
            = Some (of_nat (digitsToNat (removeChar (CHR ''.'') (cleanPrice ''1.272''))))"
      by blast
    also note a4
    finally show ?thesis .
  qed
  have b1: "CHR ''.'' \<in> set (cleanPrice ''50.00'')" by code_simp
  have b2: "\<forall>x \<in> set (cleanPrice ''50.00''). isSep x \<longrightarrow> x = CHR ''.''" by code_simp
  have b3: "parseFloat (if length (lastSegment (CHR ''.'') (cleanPrice ''50.00'')) = 3
                then removeChar (CHR ''.'') (cleanPrice ''50.00'')
                else replaceAllChar (CHR ''.'') (CHR ''.'') (cleanPrice ''50.00'')) = Some 50"
    by code_simp
  have b: "parsePrice ''50.00'' = Some 50"
  proof -
    from parsePrice_three_digit_rule [OF refl dot b1 b2]
    have "parsePrice ''50.00''
            = parseFloat (if length (lastSegment (CHR ''.'') (cleanPrice ''50.00'')) = 3
                then removeChar (CHR ''.'') (cleanPrice ''50.00'')
                else replaceAllChar (CHR ''.'') (CHR ''.'') (cleanPrice ''50.00''))"
      by blast
    also note b3
    finally show ?thesis .
  qed
  have c1: "CHR '','' \<in> set (cleanPrice ''12,5'')" by code_simp
  have c2: "\<forall>x \<in> set (cleanPrice ''12,5''). isSep x \<longrightarrow> x = CHR '',''" by code_simp
  have c3: "parseFloat (if length (lastSegment (CHR '','') (cleanPrice ''12,5'')) = 3
                then removeChar (CHR '','') (cleanPrice ''12,5'')
                else replaceAllChar (CHR '','') (CHR ''.'') (cleanPrice ''12,5'')) = Some (25 / 2)"
    by code_simp
  have c: "parsePrice ''12,5'' = Some (25 / 2)"
  proof -
    from parsePrice_three_digit_rule [OF refl comma c1 c2]
    have "parsePrice ''12,5''
            = parseFloat (if length (lastSegment (CHR '','') (cleanPrice ''12,5'')) = 3
                then removeChar (CHR '','') (cleanPrice ''12,5'')
                else replaceAllChar (CHR '','') (CHR ''.'') (cleanPrice ''12,5''))"
      by blast
    also note c3
    finally show ?thesis .
  qed
  from a b c show ?thesis by simp
qed

text \<open>
  C3. When the cleaned token contains both a dot and a comma, the symbol that occurs last
  is read as the decimal point and every occurrence of the other symbol is removed.
\<close>
theorem parsePrice_last_separator_is_decimal:
  assumes c: "c = cleanPrice t"
    and dot: "CHR ''.'' \<in> set c"
    and comma: "CHR '','' \<in> set c"
    and dec: "decimal = last (filter isSep c)"
    and oth: "other = (if decimal = CHR '','' then CHR ''.'' else CHR '','')"
  shows "parsePrice t = parseFloat (replaceAllChar decimal (CHR ''.'') (removeChar other c))"
proof -
  have ne: "cleanPrice t \<noteq> []" using dot c by auto
  have alpha: "\<forall>x \<in> set c. isDigit x \<or> isSep x" using cleanPrice_alphabet c by simp
  have sepfilter: "filter isSep c = filter (\<lambda>x. x = CHR '','' \<or> x = CHR ''.'') c"
    by (rule filter_cong) (auto simp: isSep_def)
  have cmp: "(lastIndexOf (CHR '','') c > lastIndexOf (CHR ''.'') c) = (decimal = CHR '','')"
    using lastIndexOf_compare [of "CHR '',''" "CHR ''.''" c] dot comma dec sepfilter by simp
  show ?thesis
  proof (cases "decimal = CHR '',''")
    case True
    let ?x = "removeChar (CHR ''.'') c"
    have ax: "\<forall>x \<in> set ?x. isDigit x \<or> isSep x" using alpha by (simp add: removeChar_def)
    have a1: "\<forall>x \<in> set (replaceFirst (CHR '','') (CHR ''.'') ?x). isDigit x \<or> isSep x"
      by (rule replaceFirst_alphabet [OF ax]) (simp add: isSep_def)
    have a2: "\<forall>x \<in> set (replaceAllChar (CHR '','') (CHR ''.'') ?x). isDigit x \<or> isSep x"
      using ax by (auto simp: replaceAllChar_def isSep_def)
    have "parseFloat (replaceFirst (CHR '','') (CHR ''.'') ?x)
            = parseFloat (replaceAllChar (CHR '','') (CHR ''.'') ?x)"
      using parseFloat_plain [OF a1] parseFloat_plain [OF a2] decimalValue_replaceFirst by simp
    with True cmp dot comma ne c oth show ?thesis
      by (simp add: parsePrice_def normalizeNum_def Let_def)
  next
    case False
    have "decimal \<in> set (filter isSep c)"
      unfolding dec using dot by (intro last_in_set) (auto simp: filter_empty_conv isSep_def)
    with False have d: "decimal = CHR ''.''" by (auto simp: isSep_def)
    have "replaceAllChar (CHR ''.'') (CHR ''.'') (removeChar (CHR '','') c) = removeChar (CHR '','') c"
      unfolding replaceAllChar_def by (intro map_idI) auto
    with False d cmp dot comma ne c oth show ?thesis
      by (simp add: parsePrice_def normalizeNum_def Let_def)
  qed
qed

theorem parsePrice_last_separator_is_decimal_witness:
  "parsePrice ''1.234,56'' = Some (123456 / 100) \<and> parsePrice ''1,234.56'' = Some (123456 / 100)"
proof -
  have a1: "CHR ''.'' \<in> set (cleanPrice ''1.234,56'')" by code_simp
  have a2: "CHR '','' \<in> set (cleanPrice ''1.234,56'')" by code_simp
  have a3: "parseFloat (replaceAllChar (last (filter isSep (cleanPrice ''1.234,56''))) (CHR ''.'')
              (removeChar (if last (filter isSep (cleanPrice ''1.234,56'')) = CHR '',''
                           then CHR ''.'' else CHR '','') (cleanPrice ''1.234,56'')))
            = Some (123456 / 100)"
    by code_simp
  have a: "parsePrice ''1.234,56'' = Some (123456 / 100)"
    using parsePrice_last_separator_is_decimal [OF refl a1 a2 refl refl] a3 by (rule trans)
  have b1: "CHR ''.'' \<in> set (cleanPrice ''1,234.56'')" by code_simp
  have b2: "CHR '','' \<in> set (cleanPrice ''1,234.56'')" by code_simp
  have b3: "parseFloat (replaceAllChar (last (filter isSep (cleanPrice ''1,234.56''))) (CHR ''.'')
              (removeChar (if last (filter isSep (cleanPrice ''1,234.56'')) = CHR '',''
                           then CHR ''.'' else CHR '','') (cleanPrice ''1,234.56'')))
            = Some (123456 / 100)"
    by code_simp
  have b: "parsePrice ''1,234.56'' = Some (123456 / 100)"
    using parsePrice_last_separator_is_decimal [OF refl b1 b2 refl refl] b3 by (rule trans)
  from a b show ?thesis by simp
qed

text \<open>
  C4. The fallback also runs when the keyword-anchored total extractor has found a total
  that is zero: the test \<open>!data.amount\<close> holds for 0, and the total found is replaced
  by the largest positive number of the text.
\<close>
theorem fallback_runs_on_zero_total:
  "amount (keywordFields 2026 (''TOTAL: 0.00'' @ [newline] @ ''Item 5.00'')) = Some 0
   \<and> amount (parse 2026 (''TOTAL: 0.00'' @ [newline] @ ''Item 5.00'')) = Some 5"
  by code_simp

text \<open>
  C5. The date is the first candidate, in the order of the text, whose first run of four
  digits is a year from 2000 to the current year plus one; if no candidate is plausible
  and there is a candidate, it is the first candidate with its first occurrence of 2026,
  2027, 2028 or 2029 replaced by the current year; without a candidate it is absent.
\<close>
theorem date_first_plausible_candidate:
  "date (parse currentYear t) =
     (let candidates = matchAll False dateRegex t
      in case find (plausibleYear currentYear) candidates of
           Some d \<Rightarrow> Some d
         | None \<Rightarrow>
             (case candidates of
                [] \<Rightarrow> None
              | first # _ \<Rightarrow> Some (replaceBadYear (natToString currentYear) first)))"
  by (rule parse_date)

theorem date_first_plausible_candidate_witness:
  "date (parse 2026 ''Emitida 15/01/2028, vence 2024-02-15'') = Some ''2024-02-15''
   \<and> date (parse 2026 ''Emitida 15/01/2028'') = Some ''15/01/2026''
   \<and> date (parse 2026 ''Sin fecha'') = None"
proof -
  have a: "(let candidates = matchAll False dateRegex ''Emitida 15/01/2028, vence 2024-02-15''
      in case find (plausibleYear 2026) candidates of
           Some d \<Rightarrow> Some d
         | None \<Rightarrow>
             (case candidates of
                [] \<Rightarrow> None
              | first # _ \<Rightarrow> Some (replaceBadYear (natToString 2026) first)))
       = Some ''2024-02-15''"
    by code_simp
  have b: "(let candidates = matchAll False dateRegex ''Emitida 15/01/2028''
      in case find (plausibleYear 2026) candidates of
           Some d \<Rightarrow> Some d
         | None \<Rightarrow>
             (case candidates of
                [] \<Rightarrow> None
              | first # _ \<Rightarrow> Some (replaceBadYear (natToString 2026) first)))
       = Some ''15/01/2026''"
    by code_simp
  have c: "(let candidates = matchAll False dateRegex ''Sin fecha''
      in case find (plausibleYear 2026) candidates of
           Some d \<Rightarrow> Some d
         | None \<Rightarrow>
             (case candidates of
                [] \<Rightarrow> None
              | first # _ \<Rightarrow> Some (replaceBadYear (natToString 2026) first)))
       = None"
    by code_simp
  show ?thesis
    using date_first_plausible_candidate [of 2026 "''Emitida 15/01/2028, vence 2024-02-15''"]
      date_first_plausible_candidate [of 2026 "''Emitida 15/01/2028''"]
      date_first_plausible_candidate [of 2026 "''Sin fecha''"]
    unfolding a b c by simp
qed

text \<open>
  C6, as stated: the exclusion list has the Spanish words COPIA and CLIENTE, not COPY and
  CUSTOMER, so a line \<open>CUSTOMER COPY\<close> is taken as the vendor.
\<close>
theorem vendor_exclusion_list_has_no_copy:
  "''COPY'' \<notin> set skipWords \<and> ''CUSTOMER'' \<notin> set skipWords
   \<and> vendorName (parse 2026 ''CUSTOMER COPY'') = Some ''CUSTOMER COPY''"
proof -
  have "''COPY'' \<notin> set skipWords" by code_simp
  moreover have "''CUSTOMER'' \<notin> set skipWords" by code_simp
  moreover have "vendorName (parse 2026 ''CUSTOMER COPY'') = Some ''CUSTOMER COPY''"
    by code_simp
  ultimately show ?thesis by simp
qed

text \<open>
  C6, amended. The vendor is the first normalized line (trimmed, longer than three
  characters, with an ASCII letter or digit) such that its upper-cased form contains no
  word of the exclusion list, it does not start with CALLE, AV or JR followed by white
  space or by a dot and white space, and it is shorter than 50 characters; absent if
  there is none. The list is the one below, with INVOICE, FACTURA, ORIGINAL, COPIA and
  CLIENTE. A first line \<open>FACTURA ORIGINAL\<close> is passed over: the vendor is the vendor of
  the rest of the text.
\<close>
theorem vendor_first_qualifying_line:
  "vendorName (parse y t) =
     find (\<lambda>line. (\<forall>word \<in> set skipWords. \<not> includesStr (toUpperCase line) word)
                   \<and> \<not> streetPrefixed (toUpperCase line) \<and> length line < 50)
       (filter (\<lambda>line. 3 < length line \<and> (\<exists>c \<in> set line. isAlnum c))
          (map trim (splitOn newline t)))
   \<and> skipWords =
       [''BIENVENIDO'', ''WELCOME'', ''FACTURA'', ''INVOICE'', ''SENIAT'', ''DGI'',
        ''RUC'', ''RIF'', ''NIT'', ''FISCAL'', ''ORIGINAL'', ''COPIA'', ''CLIENTE'']
   \<and> vendorName (parse y (''FACTURA ORIGINAL'' @ newline # rest)) = vendorName (parse y rest)"
proof (intro conjI)
  have "vendorCandidate = (\<lambda>line. (\<forall>word \<in> set skipWords. \<not> includesStr (toUpperCase line) word)
                   \<and> \<not> streetPrefixed (toUpperCase line) \<and> length line < 50)"
    by (rule ext) (rule vendorCandidate_iff)
  moreover have "keepLine = (\<lambda>line. 3 < length line \<and> (\<exists>c \<in> set line. isAlnum c))"
    by (rule ext) (rule keepLine_iff)
  ultimately show "vendorName (parse y t) =
     find (\<lambda>line. (\<forall>word \<in> set skipWords. \<not> includesStr (toUpperCase line) word)
                   \<and> \<not> streetPrefixed (toUpperCase line) \<and> length line < 50)
       (filter (\<lambda>line. 3 < length line \<and> (\<exists>c \<in> set line. isAlnum c))
          (map trim (splitOn newline t)))"
    unfolding parse_vendorName cleanLines_def by simp
  show "skipWords =
       [''BIENVENIDO'', ''WELCOME'', ''FACTURA'', ''INVOICE'', ''SENIAT'', ''DGI'',
        ''RUC'', ''RIF'', ''NIT'', ''FISCAL'', ''ORIGINAL'', ''COPIA'', ''CLIENTE'']"
    by (rule skipWords_def)
  have nl: "newline \<notin> set ''FACTURA ORIGINAL''" by code_simp
  have tr: "trim ''FACTURA ORIGINAL'' = ''FACTURA ORIGINAL''" by code_simp
  have keep: "keepLine ''FACTURA ORIGINAL''" by code_simp
  have skip: "\<not> vendorCandidate ''FACTURA ORIGINAL''" by code_simp
  have "cleanLines (''FACTURA ORIGINAL'' @ newline # rest) = ''FACTURA ORIGINAL'' # cleanLines rest"
    unfolding cleanLines_def splitOn_first_line [OF nl] using tr keep by simp
  then show "vendorName (parse y (''FACTURA ORIGINAL'' @ newline # rest)) = vendorName (parse y rest)"
    unfolding parse_vendorName using skip by simp
qed

theorem vendor_first_qualifying_line_witness:
  "vendorName (parse 2026 (''FACTURA ORIGINAL'' @ newline # ''Av. Bolivar 12'' @ newline # ''Tienda Pepe''))
     = Some ''Tienda Pepe''"
proof -
  let ?rest = "''Av. Bolivar 12'' @ newline # ''Tienda Pepe''"
  note inst = vendor_first_qualifying_line [of 2026 ?rest ?rest]
  have "vendorName (parse 2026 (''FACTURA ORIGINAL'' @ newline # ?rest)) = vendorName (parse 2026 ?rest)"
    by (rule inst [THEN conjunct2, THEN conjunct2])
  also have "\<dots> = find (\<lambda>line. (\<forall>word \<in> set skipWords. \<not> includesStr (toUpperCase line) word)
                   \<and> \<not> streetPrefixed (toUpperCase line) \<and> length line < 50)
       (filter (\<lambda>line. 3 < length line \<and> (\<exists>c \<in> set line. isAlnum c))
          (map trim (splitOn newline ?rest)))"
    by (rule inst [THEN conjunct1])
  also have "\<dots> = Some ''Tienda Pepe''"
    by code_simp
  finally show ?thesis .
qed

text \<open>
  C7, as stated: \<open>receipt\<close> and \<open>number\<close> are not keywords of the expression (it has
  \<open>chk\<close> and \<open>numero\<close>), and the text \<open>Receipt: R-123\<close> yields no invoice number.
\<close>
theorem invoice_keywords_lack_receipt:
  "''receipt'' \<notin> set invoiceKeywords \<and> ''number'' \<notin> set invoiceKeywords
   \<and> invoiceNumber (parse 2026 ''Receipt: R-123'') = None"
proof -
  have "''receipt'' \<notin> set invoiceKeywords" by code_simp
  moreover have "''number'' \<notin> set invoiceKeywords" by code_simp
  moreover have "invoiceNumber (parse 2026 ''Receipt: R-123'') = None" by code_simp
  ultimately show ?thesis by simp
qed

text \<open>
  C7, amended. The invoice number is found at the first position of the text where one of
  the keywords factura, invoice, ticket, folio, chk, numero starts (in any case of the
  letters) and is followed by optional white space, at most one of \<open>:\<close>, \<open>#\<close>, \<open>.\<close>,
  optional white space, and a non-empty run of letters of either case, digits and
  hyphens; it is the longest such run. It is absent when there is no such position.
  Every text that contains \<open>Invoice: R-123\<close> yields an invoice number.
\<close>
theorem invoice_first_keyword_token:
  "invoiceNumber (parse y t) = firstInvoiceToken t
   \<and> invoiceKeywords = [''factura'', ''invoice'', ''ticket'', ''folio'', ''chk'', ''numero'']
   \<and> invoiceNumber (parse y (p @ ''Invoice: R-123'' @ q)) \<noteq> None"
proof (intro conjI)
  show "invoiceNumber (parse y t) = firstInvoiceToken t"
    by (simp add: parse_invoiceNumber matchFirst_invoice)
  show "invoiceKeywords = [''factura'', ''invoice'', ''ticket'', ''folio'', ''chk'', ''numero'']"
    by (rule invoiceKeywords_def)
  have "firstInvoiceToken (p @ ''Invoice: R-123'' @ q) \<noteq> None"
    by (rule firstInvoiceToken_suffix) (rule invoiceTokenAt_example)
  then show "invoiceNumber (parse y (p @ ''Invoice: R-123'' @ q)) \<noteq> None"
    by (simp add: parse_invoiceNumber matchFirst_invoice)
qed

theorem invoice_first_keyword_token_witness:
  "invoiceNumber (parse 2026 ''Cliente 7, Invoice: R-123 x'') = Some ''R-123''
   \<and> invoiceNumber (parse 2026 ''folio  #  ab-12/3'') = Some ''ab-12''"
proof -
  have a: "firstInvoiceToken ''Cliente 7, Invoice: R-123 x'' = Some ''R-123''" by code_simp
  have b: "firstInvoiceToken ''folio  #  ab-12/3'' = Some ''ab-12''" by code_simp
  from invoice_first_keyword_token [of 2026 "''Cliente 7, Invoice: R-123 x''", THEN conjunct1]
    invoice_first_keyword_token [of 2026 "''folio  #  ab-12/3''", THEN conjunct1]
  show ?thesis unfolding a b by (rule conjI)
qed

text \<open>
  C8. \<open>parse\<close> is not total: whatever the argument limit of the engine, the text of one
  more number than the limit, \<open>"1 ".repeat(argLimit + 1)\<close>, has no total keyword, so the
  fallback runs, and \<open>Math.max(...numericPrices)\<close> throws a \<open>RangeError\<close>, which leaves
  \<open>parse\<close>. On the empty text \<open>parse\<close> returns the record with every optional field
  absent, as the claim says.
\<close>
theorem parse_throws_on_many_numbers:
  "parseE argLimit y (onesText (Suc argLimit)) = Inl RangeError
   \<and> parseE argLimit y [] =
       Inr \<lparr>rawText = [], vendorName = None, date = None, invoiceNumber = None,
            amount = None, subtotalAmount = None, taxAmount = None\<rparr>"
proof
  have "afterNonWord []" by (simp add: afterNonWord_def)
  then have "matchAll False fallbackRegex (onesText (Suc argLimit)) = replicate (Suc argLimit) ''1''"
    unfolding matchAll_def by (rule matchAll_onesText)
  then have "length (positivePrices (matchAll False fallbackRegex (onesText (Suc argLimit))))
               = Suc argLimit"
    by (simp only: positivePrices_ones length_replicate)
  then show "parseE argLimit y (onesText (Suc argLimit)) = Inl RangeError"
    by (simp add: parseE_parse keywordFields_amount_ones falsyNumber_def)
  have "positivePrices (matchAll False fallbackRegex []) = []" by code_simp
  then show "parseE argLimit y [] =
       Inr \<lparr>rawText = [], vendorName = None, date = None, invoiceNumber = None,
            amount = None, subtotalAmount = None, taxAmount = None\<rparr>"
    by (simp add: parseE_parse parse_empty)
qed

text \<open>
  C9, as stated: two calls of \<open>parse\<close> on the same text can differ, because \<open>isValidDate\<close>
  and the date fallback read the clock. The text \<open>2027-01-15\<close> gives the date
  \<open>2025-01-15\<close> in 2025 and \<open>2027-01-15\<close> in 2026.
\<close>
theorem parse_depends_on_clock:
  "parse 2025 ''2027-01-15'' \<noteq> parse 2026 ''2027-01-15''"
proof -
  have "date (parse 2025 ''2027-01-15'') = Some ''2025-01-15''" by code_simp
  moreover have "date (parse 2026 ''2027-01-15'') = Some ''2027-01-15''" by code_simp
  ultimately show ?thesis by auto
qed

text \<open>
  C9, amended. The clock is the only input of \<open>parse\<close> besides the text, and it reaches
  the date only: two calls on the same text yield records that agree in every field but
  \<open>date\<close>, and identical records when the current year is the same.
\<close>
theorem parse_deterministic_up_to_clock:
  "parse y1 t = (parse y2 t)\<lparr>date := date (parse y1 t)\<rparr>
   \<and> (y1 = y2 \<longrightarrow> parse y1 t = parse y2 t)"
proof -
  have "rawText (parse y1 t) = rawText (parse y2 t)"
    by (simp add: parse_rawText)
  moreover have "vendorName (parse y1 t) = vendorName (parse y2 t)"
    by (simp add: parse_vendorName)
  moreover have "invoiceNumber (parse y1 t) = invoiceNumber (parse y2 t)"
    by (simp add: parse_invoiceNumber)
  moreover have "amount (parse y1 t) = amount (parse y2 t)"
    unfolding parse_amount keywordFields_amount by (rule refl)
  moreover have "subtotalAmount (parse y1 t) = subtotalAmount (parse y2 t)"
    by (simp add: parse_subtotalAmount)
  moreover have "taxAmount (parse y1 t) = taxAmount (parse y2 t)"
    by (simp add: parse_taxAmount)
  ultimately have "parse y1 t = (parse y2 t)\<lparr>date := date (parse y1 t)\<rparr>"
    by (cases "parse y1 t"; cases "parse y2 t") simp
  then show ?thesis by simp
qed

theorem parse_deterministic_up_to_clock_witness:
  "parse 2025 ''2027-01-15'' = (parse 2026 ''2027-01-15'')\<lparr>date := Some ''2025-01-15''\<rparr>
   \<and> parse 2026 ''2027-01-15'' = parse 2026 ''2027-01-15''"
proof -
  have d: "date (parse 2025 ''2027-01-15'') = Some ''2025-01-15''" by code_simp
  show ?thesis
    using parse_deterministic_up_to_clock [of 2025 "''2027-01-15''" 2026]
      parse_deterministic_up_to_clock [of 2026 "''2027-01-15''" 2026]
    unfolding d by simp
qed

text \<open>
  C10. \<open>parsePrice\<close> never returns a negative number: only digits, dots and commas reach
  \<open>parseFloat\<close>, so no sign is read. Hence \<open>amount\<close>, \<open>subtotalAmount\<close> and \<open>taxAmount\<close>
  are non-negative when present, and an amount that the fallback has set is positive.
\<close>
theorem amounts_nonnegative:
  "(\<forall>s v. parsePrice s = Some v \<longrightarrow> 0 \<le> v)
   \<and> (\<forall>a. amount (parse y t) = Some a \<longrightarrow> 0 \<le> a)
   \<and> (\<forall>a. subtotalAmount (parse y t) = Some a \<longrightarrow> 0 \<le> a)
   \<and> (\<forall>a. taxAmount (parse y t) = Some a \<longrightarrow> 0 \<le> a)
   \<and> (amount (parse y t) \<noteq> amount (keywordFields y t) \<longrightarrow>
        (\<exists>a. amount (parse y t) = Some a \<and> 0 < a))"
proof (intro conjI allI impI)
  show "0 \<le> v" if "parsePrice s = Some v" for s v
    using that by (rule parsePrice_nonneg)
  show "0 \<le> a" if "subtotalAmount (parse y t) = Some a" for a
    using that unfolding parse_subtotalAmount
    by (auto split: option.splits dest: parsePrice_nonneg)
  show "0 \<le> a" if "taxAmount (parse y t) = Some a" for a
    using that unfolding parse_taxAmount
    by (auto split: option.splits dest: parsePrice_nonneg)
  have kw: "0 \<le> a" if "amount (keywordFields y t) = Some a" for a
    using that unfolding keywordFields_amount
    by (auto split: option.splits dest: parsePrice_nonneg)
  show "0 \<le> a" if a: "amount (parse y t) = Some a" for a
  proof (cases "positivePrices (matchAll False fallbackRegex t)")
    case Nil
    with a have "amount (keywordFields y t) = Some a"
      unfolding parse_amount by (simp split: if_splits)
    then show ?thesis by (rule kw)
  next
    case (Cons x xs)
    show ?thesis
    proof (cases "falsyNumber (amount (keywordFields y t))")
      case True
      with a Cons have "a = maxOf x xs" unfolding parse_amount by simp
      with fallback_positive [OF Cons] show ?thesis by simp
    next
      case False
      with a have "amount (keywordFields y t) = Some a" unfolding parse_amount by simp
      then show ?thesis by (rule kw)
    qed
  qed
  show "\<exists>a. amount (parse y t) = Some a \<and> 0 < a"
    if changed: "amount (parse y t) \<noteq> amount (keywordFields y t)"
  proof (cases "positivePrices (matchAll False fallbackRegex t)")
    case Nil
    with changed show ?thesis unfolding parse_amount by (simp split: if_splits)
  next
    case (Cons x xs)
    from changed have "falsyNumber (amount (keywordFields y t))"
      unfolding parse_amount by (simp split: if_splits)
    with Cons have "amount (parse y t) = Some (maxOf x xs)" unfolding parse_amount by simp
    with fallback_positive [OF Cons] show ?thesis by simp
  qed
qed

theorem amounts_nonnegative_witness:
  "parsePrice ''-5.00'' = Some 5 \<and> (0::rat) \<le> 5
   \<and> amount (parse 2026 ''Item -5.00'') \<noteq> amount (keywordFields 2026 ''Item -5.00'')
   \<and> (\<exists>a. amount (parse 2026 ''Item -5.00'') = Some a \<and> 0 < a)"
proof -
  have p: "parsePrice ''-5.00'' = Some 5" by code_simp
  have c: "amount (parse 2026 ''Item -5.00'') \<noteq> amount (keywordFields 2026 ''Item -5.00'')"
    by code_simp
  from amounts_nonnegative [of 2026 "''Item -5.00''"] p c show ?thesis by blast
qed

end
